theory Spec2Isabelle
  imports Complex_Main "HOL-Library.Char_ord" "HOL-Library.List_Lexorder" "HOL-Library.Sublist"
    "HOL-Library.Multiset"
begin


section \<open>JavaScript values\<close>

text \<open>
  The values the store handles: \<^verbatim>\<open>undefined\<close>, \<^verbatim>\<open>null\<close>, booleans, numbers,
  strings and plain objects. A number is \<^verbatim>\<open>NaN\<close>, an infinity or a finite value; a
  finite value is the rational its literal denotes: the rounding of a literal to
  binary64 is not modelled, so a literal beyond the range of binary64 denotes its
  exact value here, where the platform gives an infinity or zero; \<^verbatim>\<open>-0\<close> and
  \<^verbatim>\<open>+0\<close>, which no comparison of the code tells apart, are one value. A string
  is a list of code units below 256 (the Latin-1 range); code units from 256 on
  are not among the modelled values. An object is the list of its properties in
  insertion order.
  Arrays, functions, symbols and big integers are not among the modelled values.
\<close>

datatype jsnum = NaN | NegInf | Fin rat | PosInf

datatype jsval =
    Undefined
  | Null
  | Bool bool
  | Num jsnum
  | Str string
  | Obj "(string \<times> jsval) list"

type_synonym jsobject = "(string \<times> jsval) list"

text \<open>Property read \<^verbatim>\<open>o[k]\<close>: an absent property reads as \<^verbatim>\<open>undefined\<close>.\<close>

definition getprop :: "jsobject \<Rightarrow> string \<Rightarrow> jsval" where
  "getprop ob k = (case map_of ob k of None \<Rightarrow> Undefined | Some v \<Rightarrow> v)"

text \<open>Property write \<^verbatim>\<open>o[k] = v\<close> (and \<^verbatim>\<open>Map.set\<close>): an existing key keeps its place,
  a new key is appended.\<close>

fun setprop :: "'k \<Rightarrow> 'v \<Rightarrow> ('k \<times> 'v) list \<Rightarrow> ('k \<times> 'v) list" where
  "setprop k v [] = [(k, v)]"
| "setprop k v (p # ps) = (if fst p = k then (k, v) # ps else p # setprop k v ps)"

text \<open>\<^verbatim>\<open>Object.assign(target, source)\<close>: every own property of the source, in order,
  is written to the target, also one whose value is \<^verbatim>\<open>undefined\<close>.\<close>

fun assign :: "jsobject \<Rightarrow> jsobject \<Rightarrow> jsobject" where
  "assign target [] = target"
| "assign target (p # ps) = assign (setprop (fst p) (snd p) target) ps"

text \<open>\<^verbatim>\<open>Map.delete\<close> and \<^verbatim>\<open>delete o[k]\<close>.\<close>

definition delprop :: "'k \<Rightarrow> ('k \<times> 'v) list \<Rightarrow> ('k \<times> 'v) list" where
  "delprop k ps = filter (\<lambda>p. fst p \<noteq> k) ps"

subsection \<open>Numbers from strings\<close>

text \<open>
  \<^verbatim>\<open>Number(s)\<close> on a string, after ECMAScript's StringToNumber: white space
  (tab, line feed, vertical tab, form feed, carriage return, space, no-break space:
  the white space among the code units below 256) is trimmed; the empty string is 0; otherwise the text is a decimal literal with an
  optional sign (digits, an optional fraction, an optional exponent, or
  \<^verbatim>\<open>Infinity\<close>), or an unsigned hexadecimal, octal or binary integer literal;
  anything else is \<^verbatim>\<open>NaN\<close>.
\<close>

definition isWhiteSpace :: "char \<Rightarrow> bool" where
  "isWhiteSpace c = (c \<in> set [CHR 0x09, CHR 0x0A, CHR 0x0B, CHR 0x0C, CHR 0x0D, CHR 0x20, CHR 0xA0])"

definition isLineTerminator :: "char \<Rightarrow> bool" where
  "isLineTerminator c = (c = CHR 0x0A \<or> c = CHR 0x0D)"

definition trim :: "string \<Rightarrow> string" where
  "trim s = rev (dropWhile isWhiteSpace (rev (dropWhile isWhiteSpace s)))"

definition digitValue :: "char \<Rightarrow> nat option" where
  "digitValue c = map_of (zip ''0123456789abcdef'' [0 ..< 16]) c"

text \<open>
  The lower-case form of a code unit below 256: the letters \<^verbatim>\<open>A\<close> to \<^verbatim>\<open>Z\<close> (65 to 90)
  and the Latin-1 capitals (192 to 222, the multiplication sign 215 apart) lie 32
  below their lower-case forms; every other code unit is its own.
\<close>

definition lowerChar :: "char \<Rightarrow> char" where
  "lowerChar c =
     (let n = (of_char c :: nat) in
      if (65 \<le> n \<and> n \<le> 90) \<or> (192 \<le> n \<and> n \<le> 222 \<and> n \<noteq> 215) then char_of (n + 32) else c)"

text \<open>\<^verbatim>\<open>String.prototype.toLowerCase\<close>, code unit by code unit.\<close>

definition toLowerCase :: "string \<Rightarrow> string" where
  "toLowerCase s = map lowerChar s"

definition isDigitIn :: "nat \<Rightarrow> char \<Rightarrow> bool" where
  "isDigitIn base c = (case digitValue (lowerChar c) of None \<Rightarrow> False | Some d \<Rightarrow> d < base)"

definition digitsValue :: "nat \<Rightarrow> string \<Rightarrow> nat" where
  "digitsValue base ds =
     foldl (\<lambda>a c. base * a + (case digitValue (lowerChar c) of None \<Rightarrow> 0 | Some d \<Rightarrow> d)) 0 ds"

text \<open>A non-empty run of digits of the base, and nothing else.\<close>

definition allDigits :: "nat \<Rightarrow> string \<Rightarrow> bool" where
  "allDigits base ds = (ds \<noteq> [] \<and> list_all (isDigitIn base) ds)"

text \<open>The exponent part: nothing, or \<^verbatim>\<open>e\<close>/\<^verbatim>\<open>E\<close>, an optional sign and digits.\<close>

definition exponentPart :: "string \<Rightarrow> int option" where
  "exponentPart s =
     (case s of
        [] \<Rightarrow> Some 0
      | c # r \<Rightarrow>
          if c = CHR ''e'' \<or> c = CHR ''E'' then
            (case r of
               [] \<Rightarrow> None
             | d # r' \<Rightarrow>
                 if d = CHR ''+'' then
                   (if allDigits 10 r' then Some (int (digitsValue 10 r')) else None)
                 else if d = CHR ''-'' then
                   (if allDigits 10 r' then Some (- int (digitsValue 10 r')) else None)
                 else (if allDigits 10 r then Some (int (digitsValue 10 r)) else None))
          else None)"

definition scale10 :: "rat \<Rightarrow> int \<Rightarrow> rat" where
  "scale10 q e = (if 0 \<le> e then q * 10 ^ nat e else q / 10 ^ nat (- e))"

text \<open>An unsigned decimal literal: \<^verbatim>\<open>Infinity\<close>, \<^verbatim>\<open>12\<close>, \<^verbatim>\<open>12.\<close>, \<^verbatim>\<open>12.5\<close>, \<^verbatim>\<open>.5\<close>, each of the
  last four with an optional exponent.\<close>

definition unsignedDecimal :: "string \<Rightarrow> jsnum" where
  "unsignedDecimal s =
     (if s = ''Infinity'' then PosInf
      else
        let ip = takeWhile (isDigitIn 10) s;
            r1 = dropWhile (isDigitIn 10) s;
            dot = (r1 \<noteq> [] \<and> hd r1 = CHR ''.'');
            fp = (if dot then takeWhile (isDigitIn 10) (tl r1) else []);
            r2 = (if dot then dropWhile (isDigitIn 10) (tl r1) else r1)
        in if ip = [] \<and> fp = [] then NaN
           else (case exponentPart r2 of
                   None \<Rightarrow> NaN
                 | Some e \<Rightarrow>
                     Fin (scale10 (of_nat (digitsValue 10 (ip @ fp))) (e - int (length fp)))))"

definition negate :: "jsnum \<Rightarrow> jsnum" where
  "negate n = (case n of NaN \<Rightarrow> NaN | NegInf \<Rightarrow> PosInf | PosInf \<Rightarrow> NegInf | Fin q \<Rightarrow> Fin (- q))"

definition nonDecimal :: "string \<Rightarrow> jsnum option" where
  "nonDecimal s =
     (case s of
        z # x # ds \<Rightarrow>
          if z \<noteq> CHR ''0'' then None
          else if lowerChar x = CHR ''x'' then Some (if allDigits 16 ds then Fin (of_nat (digitsValue 16 ds)) else NaN)
          else if lowerChar x = CHR ''o'' then Some (if allDigits 8 ds then Fin (of_nat (digitsValue 8 ds)) else NaN)
          else if lowerChar x = CHR ''b'' then Some (if allDigits 2 ds then Fin (of_nat (digitsValue 2 ds)) else NaN)
          else None
      | _ \<Rightarrow> None)"

definition js_Number :: "string \<Rightarrow> jsnum" where
  "js_Number s =
     (let t = trim s in
      case t of
        [] \<Rightarrow> Fin 0
      | c # r \<Rightarrow>
          (case nonDecimal t of
             Some n \<Rightarrow> n
           | None \<Rightarrow>
               if c = CHR ''+'' then unsignedDecimal r
               else if c = CHR ''-'' then negate (unsignedDecimal r)
               else unsignedDecimal t))"

text \<open>\<^verbatim>\<open>Number.isNaN\<close>.\<close>

definition isNaN :: "jsnum \<Rightarrow> bool" where
  "isNaN n = (n = NaN)"

subsection \<open>Comparison\<close>

text \<open>The order of numbers; every comparison with \<^verbatim>\<open>NaN\<close> is false.\<close>

fun num_lt :: "jsnum \<Rightarrow> jsnum \<Rightarrow> bool" where
  "num_lt NaN _ = False"
| "num_lt _ NaN = False"
| "num_lt _ NegInf = False"
| "num_lt NegInf _ = True"
| "num_lt PosInf _ = False"
| "num_lt (Fin a) PosInf = True"
| "num_lt (Fin a) (Fin b) = (a < b)"

text \<open>ToPrimitive: a plain object becomes the text of \<^verbatim>\<open>Object.prototype.toString\<close>.\<close>

definition toPrimitive :: "jsval \<Rightarrow> jsval" where
  "toPrimitive v = (case v of Obj _ \<Rightarrow> Str ''[object Object]'' | _ \<Rightarrow> v)"

definition toNumber :: "jsval \<Rightarrow> jsnum" where
  "toNumber v =
     (case toPrimitive v of
        Undefined \<Rightarrow> NaN
      | Null \<Rightarrow> Fin 0
      | Bool b \<Rightarrow> Fin (if b then 1 else 0)
      | Num n \<Rightarrow> n
      | Str s \<Rightarrow> js_Number s
      | Obj _ \<Rightarrow> NaN)"

text \<open>\<^verbatim>\<open>a < b\<close>: two strings compare by code units, any other pair as numbers.\<close>

definition js_lt :: "jsval \<Rightarrow> jsval \<Rightarrow> bool" where
  "js_lt a b =
     (case (toPrimitive a, toPrimitive b) of
        (Str s, Str t) \<Rightarrow> s < t
      | _ \<Rightarrow> num_lt (toNumber a) (toNumber b))"

text \<open>\<^verbatim>\<open>a === b\<close>. Two objects are compared by their contents here: object identity
  is not modelled.\<close>

definition strict_eq :: "jsval \<Rightarrow> jsval \<Rightarrow> bool" where
  "strict_eq a b = (a = b \<and> a \<noteq> Num NaN)"

text \<open>\<^verbatim>\<open>String(v)\<close>. The text of a finite number is the platform's; it is the parameter
  \<open>numText\<close>.\<close>

definition js_String :: "(rat \<Rightarrow> string) \<Rightarrow> jsval \<Rightarrow> string" where
  "js_String numText v =
     (case v of
        Undefined \<Rightarrow> ''undefined''
      | Null \<Rightarrow> ''null''
      | Bool b \<Rightarrow> (if b then ''true'' else ''false'')
      | Num NaN \<Rightarrow> ''NaN''
      | Num NegInf \<Rightarrow> ''-Infinity''
      | Num PosInf \<Rightarrow> ''Infinity''
      | Num (Fin q) \<Rightarrow> numText q
      | Str s \<Rightarrow> s
      | Obj _ \<Rightarrow> ''[object Object]'')"


section \<open>Errors\<close>

text \<open>Every \<^verbatim>\<open>throw\<close> of the code is a value of this type; the argument is what the
  message quotes.\<close>

datatype error =
    InvalidNumericQuery string
  | InvalidNumberFieldQuery string
  | InvalidBooleanQuery string
  | FieldNotIndexed string
  | RecordNotFound string
  | UnknownField string
  | MissingRequiredField string
  | MustBeString string
  | MustBeNumber string
  | MustBeBoolean string
  | MustBePlainObject string
  | NestedObject string string
  | CannotIndexObject string
  | IndexSettingRequiresIndex string
  | IndexSettingOnlyForString string

section \<open>Index: a sorted array with binary search over one field\<close>

datatype FieldType = TString | TNumber | TBoolean | TObject

record IndexEntry =
  evalue :: jsval
  eid :: string

record Index =
  field :: string
  fieldType :: FieldType
  ignoreCase :: bool
  entries :: "IndexEntry list"

definition new_Index :: "string \<Rightarrow> FieldType \<Rightarrow> bool \<Rightarrow> Index" where
  "new_Index f t ic = \<lparr>field = f, fieldType = t, ignoreCase = ic, entries = []\<rparr>"

definition Index_normalize :: "Index \<Rightarrow> jsval \<Rightarrow> jsval" where
  "Index_normalize idx v =
     (if ignoreCase idx then (case v of Str s \<Rightarrow> Str (toLowerCase s) | _ \<Rightarrow> v) else v)"

definition compare :: "jsval \<Rightarrow> jsval \<Rightarrow> int" where
  "compare a b = (if js_lt a b then - 1 else if js_lt b a then 1 else 0)"

text \<open>
  The loop of \<^verbatim>\<open>lowerBound\<close>. The source computes \<^verbatim>\<open>(lo + hi) >>> 1\<close>, which is
  \<open>(lo + hi) div 2\<close> as long as \<open>lo + hi < 2 ^ 32\<close>, that is for every array of fewer
  than \<open>2 ^ 31\<close> entries.
\<close>

function lowerBound_loop :: "IndexEntry list \<Rightarrow> jsval \<Rightarrow> nat \<Rightarrow> nat \<Rightarrow> nat" where
  "lowerBound_loop es target lo hi =
     (if lo < hi then
        (let mid = (lo + hi) div 2 in
         if compare (evalue (es ! mid)) target < 0
         then lowerBound_loop es target (mid + 1) hi
         else lowerBound_loop es target lo mid)
      else lo)"
  by pat_completeness auto
termination
  by (relation "measure (\<lambda>(es, target, lo, hi). hi - lo)") auto

declare lowerBound_loop.simps [simp del]

definition lowerBound :: "Index \<Rightarrow> jsval \<Rightarrow> nat" where
  "lowerBound idx target = lowerBound_loop (entries idx) target 0 (length (entries idx))"

text \<open>\<^verbatim>\<open>entries.splice(i, 0, entry)\<close> and \<^verbatim>\<open>entries.splice(i, 1)\<close>.\<close>

definition splice_insert :: "nat \<Rightarrow> 'a \<Rightarrow> 'a list \<Rightarrow> 'a list" where
  "splice_insert i x xs = take i xs @ x # drop i xs"

definition splice_delete :: "nat \<Rightarrow> 'a list \<Rightarrow> 'a list" where
  "splice_delete i xs = take i xs @ drop (Suc i) xs"

definition Index_add :: "Index \<Rightarrow> string \<Rightarrow> jsval \<Rightarrow> Index" where
  "Index_add idx i v =
     (let normalized = Index_normalize idx v;
          entry = \<lparr>evalue = normalized, eid = i\<rparr>;
          pos = lowerBound idx normalized
      in idx\<lparr>entries := splice_insert pos entry (entries idx)\<rparr>)"

function remove_loop :: "IndexEntry list \<Rightarrow> jsval \<Rightarrow> string \<Rightarrow> nat \<Rightarrow> IndexEntry list" where
  "remove_loop es normalized i k =
     (if k < length es then
        (let entry = es ! k in
         if \<not> strict_eq (evalue entry) normalized then es
         else if eid entry = i then splice_delete k es
         else remove_loop es normalized i (k + 1))
      else es)"
  by pat_completeness auto
termination
  by (relation "measure (\<lambda>(es, normalized, i, k). length es - k)") auto

declare remove_loop.simps [simp del]

definition Index_remove :: "Index \<Rightarrow> string \<Rightarrow> jsval \<Rightarrow> Index" where
  "Index_remove idx i v =
     (let normalized = Index_normalize idx v;
          pos = lowerBound idx normalized
      in idx\<lparr>entries := remove_loop (entries idx) normalized i pos\<rparr>)"

text \<open>The scan \<^verbatim>\<open>for (i = idx; i < length; i++) { if (...) break; push }\<close> collects the
  longest run from \<open>idx\<close> on that passes the test.\<close>

definition exactQuery :: "Index \<Rightarrow> jsval \<Rightarrow> string list" where
  "exactQuery idx target =
     map eid (takeWhile (\<lambda>e. strict_eq (evalue e) target)
                (drop (lowerBound idx target) (entries idx)))"

definition prefixQuery :: "(rat \<Rightarrow> string) \<Rightarrow> Index \<Rightarrow> string \<Rightarrow> string list" where
  "prefixQuery numText idx pre =
     (let normalized = (if ignoreCase idx then toLowerCase pre else pre) in
      map eid (takeWhile (\<lambda>e. prefix normalized (js_String numText (evalue e)))
                 (drop (lowerBound idx (Str normalized)) (entries idx))))"

definition suffixQuery :: "(rat \<Rightarrow> string) \<Rightarrow> Index \<Rightarrow> string \<Rightarrow> string list" where
  "suffixQuery numText idx suf =
     (let normalized = (if ignoreCase idx then toLowerCase suf else suf) in
      map eid (filter (\<lambda>e. suffix normalized (js_String numText (evalue e))) (entries idx)))"

definition containsQuery :: "(rat \<Rightarrow> string) \<Rightarrow> Index \<Rightarrow> string \<Rightarrow> string list" where
  "containsQuery numText idx sub =
     (let normalized = (if ignoreCase idx then toLowerCase sub else sub) in
      map eid (filter (\<lambda>e. sublist normalized (js_String numText (evalue e))) (entries idx)))"

definition rangeQuery :: "Index \<Rightarrow> string \<Rightarrow> jsnum \<Rightarrow> string list" where
  "rangeQuery idx op target =
     (let pos = lowerBound idx (Num target) in
      if op = ''>'' \<or> op = ''>='' then
        map eid (filter (\<lambda>e. \<not> (op = ''>'' \<and> strict_eq (evalue e) (Num target)))
                   (drop pos (entries idx)))
      else
        map eid (take pos (entries idx)) @
        (if op = ''<='' then
           map eid (takeWhile (\<lambda>e. strict_eq (evalue e) (Num target)) (drop pos (entries idx)))
         else []))"

text \<open>
  The match of \<^verbatim>\<open>/^(>=?|<=?)(.+)$/\<close>: the operator and the rest. The dot matches no
  line terminator and the rest is not empty; \<^verbatim>\<open>=?\<close> takes the equals sign whenever
  something is left for the rest.
\<close>

definition rangeMatch :: "string \<Rightarrow> (string \<times> string) option" where
  "rangeMatch q =
     (case q of
        [] \<Rightarrow> None
      | c # t \<Rightarrow>
          if (c = CHR ''>'' \<or> c = CHR ''<'') \<and> t \<noteq> [] \<and> \<not> list_ex isLineTerminator t then
            (case t of
               d # r \<Rightarrow> if d = CHR ''='' \<and> r \<noteq> [] then Some ([c, d], r) else Some ([c], t)
             | [] \<Rightarrow> None)
          else None)"

definition Index_find :: "(rat \<Rightarrow> string) \<Rightarrow> Index \<Rightarrow> string \<Rightarrow> error + string list" where
  "Index_find numText idx query =
     (if fieldType idx = TNumber then
        (case rangeMatch query of
           Some (op, rest) \<Rightarrow>
             (let num = js_Number rest in
              if isNaN num then Inl (InvalidNumericQuery query)
              else Inr (rangeQuery idx op num))
         | None \<Rightarrow>
             (let num = js_Number query in
              if \<not> isNaN num then Inr (exactQuery idx (Num num))
              else Inl (InvalidNumberFieldQuery query)))
      else if fieldType idx = TBoolean then
        (if query = ''true'' then Inr (exactQuery idx (Bool True))
         else if query = ''false'' then Inr (exactQuery idx (Bool False))
         else Inl (InvalidBooleanQuery query))
      else
        (let startsWithWild = (query \<noteq> [] \<and> hd query = CHR ''%'');
             endsWithWild = (query \<noteq> [] \<and> last query = CHR ''%'')
         in if startsWithWild \<and> endsWithWild \<and> length query > 1
            then Inr (containsQuery numText idx (butlast (tl query)))
            else if endsWithWild then Inr (prefixQuery numText idx (butlast query))
            else if startsWithWild then Inr (suffixQuery numText idx (tl query))
            else Inr (exactQuery idx (Str (if ignoreCase idx then toLowerCase query else query)))))"

definition Index_clear :: "Index \<Rightarrow> Index" where
  "Index_clear idx = idx\<lparr>entries := []\<rparr>"

definition Index_size :: "Index \<Rightarrow> nat" where
  "Index_size idx = length (entries idx)"

section \<open>Properties of an index: typed values, sorted entries, runs of calls\<close>

text \<open>A value of the declared type of a field, as \<^verbatim>\<open>validateRecord\<close> admits it: a string,
  a number other than \<^verbatim>\<open>NaN\<close>, a boolean. No value is admitted to an index over an
  object field (\<^verbatim>\<open>validateSchema\<close> rejects such an index).\<close>

definition hasType :: "FieldType \<Rightarrow> jsval \<Rightarrow> bool" where
  "hasType t v =
     (case t of
        TString \<Rightarrow> (case v of Str _ \<Rightarrow> True | _ \<Rightarrow> False)
      | TNumber \<Rightarrow> (case v of Num n \<Rightarrow> \<not> isNaN n | _ \<Rightarrow> False)
      | TBoolean \<Rightarrow> (case v of Bool _ \<Rightarrow> True | _ \<Rightarrow> False)
      | TObject \<Rightarrow> False)"

definition typed_entries :: "FieldType \<Rightarrow> IndexEntry list \<Rightarrow> bool" where
  "typed_entries t es = list_all (\<lambda>e. hasType t (evalue e)) es"

text \<open>Ascending order: no entry is followed by one of smaller value.\<close>

definition sorted_entries :: "IndexEntry list \<Rightarrow> bool" where
  "sorted_entries es = sorted_wrt (\<lambda>a b. \<not> js_lt (evalue b) (evalue a)) es"

datatype IndexOp = OpAdd string jsval | OpRemove string jsval

fun apply_op :: "Index \<Rightarrow> IndexOp \<Rightarrow> Index" where
  "apply_op idx (OpAdd i v) = Index_add idx i v"
| "apply_op idx (OpRemove i v) = Index_remove idx i v"

definition run_ops :: "Index \<Rightarrow> IndexOp list \<Rightarrow> Index" where
  "run_ops idx ops = foldl apply_op idx ops"

fun op_typed :: "FieldType \<Rightarrow> IndexOp \<Rightarrow> bool" where
  "op_typed t (OpAdd i v) = hasType t v"
| "op_typed t (OpRemove i v) = True"

section \<open>Queries on a number field\<close>

text \<open>The four range operators, and a string \<^verbatim>\<open>Number\<close> converts to a number: one
  for which it does not return \<^verbatim>\<open>NaN\<close>.\<close>

definition rangeOps :: "string list" where
  "rangeOps = [''>'', ''>='', ''<'', ''<='']"

definition parsable :: "string \<Rightarrow> bool" where
  "parsable s = (\<not> isNaN (js_Number s))"

section \<open>Schema and validation\<close>

record IndexSetting =
  setting_ignoreCase :: "bool option"

text \<open>A field definition \<^verbatim>\<open>{ type, index?, indexSetting?, default? }\<close>. An optional
  member that is absent is \<open>None\<close>; an absent default is \<^verbatim>\<open>undefined\<close>.\<close>

record FieldDefinition =
  ftype :: FieldType
  index :: "bool option"
  indexSetting :: "IndexSetting option"
  fdefault :: jsval

type_synonym Schema = "(string \<times> FieldDefinition) list"

text \<open>The truth value of \<^verbatim>\<open>def.index\<close>, and \<^verbatim>\<open>def.indexSetting?.ignoreCase\<close>.\<close>

definition truthy :: "bool option \<Rightarrow> bool" where
  "truthy b = (b = Some True)"

definition ignoreCaseSetting :: "FieldDefinition \<Rightarrow> bool option" where
  "ignoreCaseSetting d = (case indexSetting d of None \<Rightarrow> None | Some s \<Rightarrow> setting_ignoreCase s)"

text \<open>The flag an index is built with: the constructor's default and \<^verbatim>\<open>?? false\<close> both
  turn an absent setting into \<^verbatim>\<open>false\<close>.\<close>

definition ignoreCaseFlag :: "FieldDefinition \<Rightarrow> bool" where
  "ignoreCaseFlag d = (case ignoreCaseSetting d of None \<Rightarrow> False | Some b \<Rightarrow> b)"

fun validateSchema :: "Schema \<Rightarrow> error option" where
  "validateSchema [] = None"
| "validateSchema ((f, d) # rest) =
     (if truthy (index d) \<and> ftype d = TObject then Some (CannotIndexObject f)
      else if indexSetting d \<noteq> None \<and> \<not> truthy (index d) then Some (IndexSettingRequiresIndex f)
      else if indexSetting d \<noteq> None \<and> ftype d \<noteq> TString then Some (IndexSettingOnlyForString f)
      else validateSchema rest)"

text \<open>\<^verbatim>\<open>typeof v === 'object' && v !== null\<close>.\<close>

definition isObject :: "jsval \<Rightarrow> bool" where
  "isObject v = (case v of Obj _ \<Rightarrow> True | _ \<Rightarrow> False)"

text \<open>The type check of one present value, the \<^verbatim>\<open>switch\<close> of \<^verbatim>\<open>validateRecord\<close>.\<close>

definition checkField :: "string \<Rightarrow> FieldType \<Rightarrow> jsval \<Rightarrow> error option" where
  "checkField f t v =
     (case t of
        TString \<Rightarrow> (case v of Str _ \<Rightarrow> None | _ \<Rightarrow> Some (MustBeString f))
      | TNumber \<Rightarrow> (case v of Num n \<Rightarrow> (if isNaN n then Some (MustBeNumber f) else None)
                              | _ \<Rightarrow> Some (MustBeNumber f))
      | TBoolean \<Rightarrow> (case v of Bool _ \<Rightarrow> None | _ \<Rightarrow> Some (MustBeBoolean f))
      | TObject \<Rightarrow>
          (case v of
             Obj ps \<Rightarrow> (case List.find (\<lambda>p. isObject (snd p)) ps of
                           None \<Rightarrow> None
                         | Some p \<Rightarrow> Some (NestedObject f (fst p)))
           | _ \<Rightarrow> Some (MustBePlainObject f)))"

fun validateFields :: "jsobject \<Rightarrow> Schema \<Rightarrow> bool \<Rightarrow> error option" where
  "validateFields record [] isPartial = None"
| "validateFields record ((f, d) # rest) isPartial =
     (let v = getprop record f in
      if v = Undefined then
        (if \<not> isPartial then Some (MissingRequiredField f)
         else validateFields record rest isPartial)
      else (case checkField f (ftype d) v of
              Some e \<Rightarrow> Some e
            | None \<Rightarrow> validateFields record rest isPartial))"

definition validateRecord :: "jsobject \<Rightarrow> Schema \<Rightarrow> bool \<Rightarrow> error option" where
  "validateRecord record schema isPartial =
     (case List.find (\<lambda>k. k \<notin> set (map fst schema)) (map fst record) of
        Some k \<Rightarrow> Some (UnknownField k)
      | None \<Rightarrow> validateFields record schema isPartial)"

section \<open>Storage\<close>

text \<open>The meta artifact: the schema and the serialized entries of every index
  (\<open>None\<close>: a file without the \<^verbatim>\<open>indexes\<close> member).\<close>

record CollectionMeta =
  meta_schema :: Schema
  meta_indexes :: "(string \<times> IndexEntry list) list option"

type_synonym DataMap = "(string \<times> jsobject) list"

text \<open>
  What \<^verbatim>\<open>JSON.parse(JSON.stringify(x))\<close> returns: a property whose value is
  \<^verbatim>\<open>undefined\<close> is left out, a number that is not finite becomes \<^verbatim>\<open>null\<close>. The order
  of the properties is kept (keys that are array indexes, which JavaScript moves to
  the front, are not treated).
\<close>

fun json_val :: "jsval \<Rightarrow> jsval" where
  "json_val (Num n) = (case n of Fin q \<Rightarrow> Num (Fin q) | _ \<Rightarrow> Null)"
| "json_val (Obj ps) =
     Obj (map (\<lambda>p. (fst p, json_val (snd p))) (filter (\<lambda>p. snd p \<noteq> Undefined) ps))"
| "json_val v = v"

definition json_obj :: "jsobject \<Rightarrow> jsobject" where
  "json_obj ps = map (\<lambda>p. (fst p, json_val (snd p))) (filter (\<lambda>p. snd p \<noteq> Undefined) ps)"

definition json_data :: "DataMap \<Rightarrow> DataMap" where
  "json_data d = map (\<lambda>p. (fst p, json_obj (snd p))) d"

definition json_entries :: "IndexEntry list \<Rightarrow> IndexEntry list" where
  "json_entries es = map (\<lambda>e. e\<lparr>evalue := json_val (evalue e)\<rparr>) es"

definition json_schema :: "Schema \<Rightarrow> Schema" where
  "json_schema s = map (\<lambda>p. (fst p, (snd p)\<lparr>fdefault := json_val (fdefault (snd p))\<rparr>)) s"

definition json_meta :: "CollectionMeta \<Rightarrow> CollectionMeta" where
  "json_meta m =
     \<lparr>meta_schema = json_schema (meta_schema m),
      meta_indexes = map_option (map (\<lambda>p. (fst p, json_entries (snd p)))) (meta_indexes m)\<rparr>"

datatype AdapterKind = MemoryAdapter | FileAdapter

text \<open>
  The state of a storage adapter: what it holds for every collection name (for the
  file adapter, the two files of the collection), and how often the two write
  methods have been called.
\<close>

record Storage =
  adapter :: AdapterKind
  dataFiles :: "(string \<times> DataMap) list"
  metaFiles :: "(string \<times> CollectionMeta) list"
  writeDataCalls :: nat
  writeMetaCalls :: nat

text \<open>The file adapter writes JSON text and parses what it reads; the memory adapter
  keeps the value.\<close>

definition Storage_readData :: "Storage \<Rightarrow> string \<Rightarrow> DataMap option" where
  "Storage_readData st collection =
     (case adapter st of
        MemoryAdapter \<Rightarrow> map_of (dataFiles st) collection
      | FileAdapter \<Rightarrow> map_option json_data (map_of (dataFiles st) collection))"

definition Storage_writeData :: "Storage \<Rightarrow> string \<Rightarrow> DataMap \<Rightarrow> Storage" where
  "Storage_writeData st collection d =
     st\<lparr>dataFiles := setprop collection
            (case adapter st of MemoryAdapter \<Rightarrow> d | FileAdapter \<Rightarrow> json_data d) (dataFiles st),
        writeDataCalls := Suc (writeDataCalls st)\<rparr>"

definition Storage_readMeta :: "Storage \<Rightarrow> string \<Rightarrow> CollectionMeta option" where
  "Storage_readMeta st collection =
     (case adapter st of
        MemoryAdapter \<Rightarrow> map_of (metaFiles st) collection
      | FileAdapter \<Rightarrow> map_option json_meta (map_of (metaFiles st) collection))"

definition Storage_writeMeta :: "Storage \<Rightarrow> string \<Rightarrow> CollectionMeta \<Rightarrow> Storage" where
  "Storage_writeMeta st collection m =
     st\<lparr>metaFiles := setprop collection
            (case adapter st of MemoryAdapter \<Rightarrow> m | FileAdapter \<Rightarrow> json_meta m) (metaFiles st),
        writeMetaCalls := Suc (writeMetaCalls st)\<rparr>"

section \<open>Index: serialization\<close>

text \<open>Modelled from the spec: the methods \<^verbatim>\<open>Index.serialize\<close> and \<^verbatim>\<open>Index.fromEntries\<close>,
  which the collection calls and the class \<^verbatim>\<open>Index\<close> does not define. By the
  specification an index is exported to, and reconstructed from, its entry sequence
  verbatim: field name, type, case-folding flag and the list of entries.\<close>

definition Index_serialize :: "Index \<Rightarrow> IndexEntry list" where
  "Index_serialize idx = entries idx"

definition Index_fromEntries :: "string \<Rightarrow> FieldType \<Rightarrow> bool \<Rightarrow> IndexEntry list \<Rightarrow> Index" where
  "Index_fromEntries f t ic es = \<lparr>field = f, fieldType = t, ignoreCase = ic, entries = es\<rparr>"

section \<open>Collection\<close>

text \<open>
  The fields \<open>data\<close> and \<open>indexes\<close> are used in memory mode only; in file mode every
  call reads the data and the indexes from the storage and writes them back.
\<close>

record Collection =
  name :: string
  schema :: Schema
  fileMode :: bool
  data :: DataMap
  indexes :: "(string \<times> Index) list"

text \<open>The result of a call: the value returned or the error thrown, and the collection
  and the storage as the call leaves them.\<close>

type_synonym 'a outcome = "(error + 'a) \<times> Collection \<times> Storage"

definition indexFor :: "string \<Rightarrow> FieldDefinition \<Rightarrow> Index" where
  "indexFor f d = new_Index f (ftype d) (ignoreCaseFlag d)"

text \<open>The loop \<^verbatim>\<open>for (const [field, def] of Object.entries(schema)) if (def.index)
  indexes.set(field, ...)\<close>, shared by \<^verbatim>\<open>initMemoryIndexes\<close>, \<^verbatim>\<open>buildIndexes\<close> and
  \<^verbatim>\<open>loadIndexesFromMeta\<close>; \<open>mk\<close> makes the index of a field.\<close>

definition indexesOver :: "Schema \<Rightarrow> (string \<Rightarrow> FieldDefinition \<Rightarrow> Index) \<Rightarrow> (string \<times> Index) list" where
  "indexesOver sch mk =
     foldl (\<lambda>m p. if truthy (index (snd p)) then setprop (fst p) (mk (fst p) (snd p)) m else m) [] sch"

definition initMemoryIndexes :: "Collection \<Rightarrow> Collection" where
  "initMemoryIndexes c = c\<lparr>indexes := indexesOver (schema c) indexFor\<rparr>"

definition buildIndexes :: "Collection \<Rightarrow> (string \<times> Index) list" where
  "buildIndexes c = indexesOver (schema c) indexFor"

definition buildMeta :: "Collection \<Rightarrow> (string \<times> Index) list \<Rightarrow> CollectionMeta" where
  "buildMeta c idxs =
     \<lparr>meta_schema = schema c,
      meta_indexes = Some (foldl (\<lambda>ser p. setprop (fst p) (Index_serialize (snd p)) ser) [] idxs)\<rparr>"

text \<open>The loop of \<^verbatim>\<open>schemasMatch\<close> over the two sorted key lists, which have the same
  length. A key of a schema has a definition; the last case is for the types only.\<close>

fun schemasMatch_loop :: "Schema \<Rightarrow> Schema \<Rightarrow> string list \<Rightarrow> string list \<Rightarrow> bool" where
  "schemasMatch_loop cur stored (k # ks) (k' # ks') =
     (if k \<noteq> k' then False
      else (case (map_of cur k, map_of stored k') of
              (Some currDef, Some prevDef) \<Rightarrow>
                if ftype currDef \<noteq> ftype prevDef then False
                else if truthy (index currDef) \<noteq> truthy (index prevDef) then False
                else if ignoreCaseSetting currDef \<noteq> ignoreCaseSetting prevDef then False
                else schemasMatch_loop cur stored ks ks'
            | _ \<Rightarrow> False))"
| "schemasMatch_loop cur stored _ _ = True"

definition schemasMatch :: "Collection \<Rightarrow> Schema \<Rightarrow> bool" where
  "schemasMatch c stored =
     (let currentKeys = sort (map fst (schema c));
          storedKeys = sort (map fst stored)
      in if length currentKeys \<noteq> length storedKeys then False
         else schemasMatch_loop (schema c) stored currentKeys storedKeys)"

definition initFileMode :: "Collection \<Rightarrow> Storage \<Rightarrow> Storage" where
  "initFileMode c st =
     (case Storage_readMeta st (name c) of
        Some meta \<Rightarrow>
          if \<not> schemasMatch c (meta_schema meta)
          then Storage_writeMeta (Storage_writeData st (name c) []) (name c) (buildMeta c [])
          else st
      | None \<Rightarrow> Storage_writeMeta (Storage_writeData st (name c) []) (name c) (buildMeta c []))"

text \<open>The constructor; \<^verbatim>\<open>storage instanceof FileAdapter\<close> selects the mode.\<close>

definition new_Collection :: "string \<Rightarrow> Schema \<Rightarrow> Storage \<Rightarrow> Collection \<times> Storage" where
  "new_Collection nm sch st =
     (let c = \<lparr>name = nm, schema = sch, fileMode = (adapter st = FileAdapter), data = [], indexes = []\<rparr>
      in if fileMode c then (c, initFileMode c st) else (initMemoryIndexes c, st))"

definition loadIndexesFromMeta :: "Collection \<Rightarrow> Storage \<Rightarrow> (string \<times> Index) list" where
  "loadIndexesFromMeta c st =
     (case Storage_readMeta st (name c) of
        None \<Rightarrow> buildIndexes c
      | Some meta \<Rightarrow>
          (case meta_indexes meta of
             None \<Rightarrow> buildIndexes c
           | Some ser \<Rightarrow>
               indexesOver (schema c)
                 (\<lambda>f d. case map_of ser f of
                          Some es \<Rightarrow> Index_fromEntries f (ftype d) (ignoreCaseFlag d) es
                        | None \<Rightarrow> indexFor f d)))"

definition readData :: "Collection \<Rightarrow> Storage \<Rightarrow> DataMap" where
  "readData c st = (case Storage_readData st (name c) of None \<Rightarrow> [] | Some raw \<Rightarrow> raw)"

definition writeData :: "Collection \<Rightarrow> Storage \<Rightarrow> DataMap \<Rightarrow> Storage" where
  "writeData c st d = Storage_writeData st (name c) d"

text \<open>The text of an array index, for the spread of a string.\<close>

function natText :: "nat \<Rightarrow> string" where
  "natText n = (if n < 10 then [''0123456789'' ! n] else natText (n div 10) @ [''0123456789'' ! (n mod 10)])"
  by pat_completeness auto
termination
  by (relation "measure id") auto

declare natText.simps [simp del]

text \<open>The object spread \<^verbatim>\<open>{ ...v }\<close>: the properties of an object, the characters of a
  string, nothing of any other value.\<close>

definition spread :: "jsval \<Rightarrow> jsobject" where
  "spread v =
     (case v of
        Obj ps \<Rightarrow> ps
      | Str s \<Rightarrow> map (\<lambda>i. (natText i, Str [s ! i])) [0 ..< length s]
      | _ \<Rightarrow> [])"

definition applyDefaults :: "Collection \<Rightarrow> jsobject \<Rightarrow> jsobject" where
  "applyDefaults c record =
     foldl (\<lambda>result p.
              if getprop result (fst p) = Undefined \<and> fdefault (snd p) \<noteq> Undefined
              then setprop (fst p)
                     (if ftype (snd p) = TObject then Obj (spread (fdefault (snd p)))
                      else fdefault (snd p))
                     result
              else result)
       record (schema c)"

text \<open>\<^verbatim>\<open>{ _id: id, ...record }\<close>.\<close>

definition toDocument :: "string \<Rightarrow> jsobject \<Rightarrow> jsobject" where
  "toDocument i record = assign [(''_id'', Str i)] record"

text \<open>The loop \<^verbatim>\<open>for (const [field, index] of indexes) { const val = raw[field];
  if (val !== undefined) index.add(id, val) }\<close> of \<^verbatim>\<open>add\<close> and \<^verbatim>\<open>addMany\<close>.\<close>

definition indexRecord :: "(string \<times> Index) list \<Rightarrow> string \<Rightarrow> jsobject \<Rightarrow> (string \<times> Index) list" where
  "indexRecord idxs i raw =
     map (\<lambda>p. (fst p, (let val = getprop raw (fst p)
                        in if val \<noteq> Undefined then Index_add (snd p) i val else snd p))) idxs"

text \<open>The loop of \<^verbatim>\<open>update\<close>: a field the partial record does not define is skipped;
  otherwise the old value, if there is one, leaves the index and the new one enters.\<close>

definition reindexRecord ::
  "(string \<times> Index) list \<Rightarrow> string \<Rightarrow> jsobject \<Rightarrow> jsobject \<Rightarrow> (string \<times> Index) list" where
  "reindexRecord idxs i existing partial =
     map (\<lambda>p. (fst p,
                (let newVal = getprop partial (fst p) in
                 if newVal = Undefined then snd p
                 else (let oldVal = getprop existing (fst p);
                           idx = (if oldVal \<noteq> Undefined then Index_remove (snd p) i oldVal else snd p)
                       in Index_add idx i newVal)))) idxs"

text \<open>The loop of \<^verbatim>\<open>remove\<close>.\<close>

definition unindexRecord :: "(string \<times> Index) list \<Rightarrow> string \<Rightarrow> jsobject \<Rightarrow> (string \<times> Index) list" where
  "unindexRecord idxs i existing =
     map (\<lambda>p. (fst p, (let val = getprop existing (fst p)
                        in if val \<noteq> Undefined then Index_remove (snd p) i val else snd p))) idxs"

text \<open>\<^verbatim>\<open>add\<close>; \<open>newId\<close> is what \<^verbatim>\<open>generateId()\<close> returns in this call.\<close>

definition add :: "Collection \<Rightarrow> Storage \<Rightarrow> string \<Rightarrow> jsobject \<Rightarrow> jsobject outcome" where
  "add c st newId record =
     (let withDefaults = applyDefaults c record in
      case validateRecord withDefaults (schema c) False of
        Some e \<Rightarrow> (Inl e, c, st)
      | None \<Rightarrow>
          if fileMode c then
            (let d = setprop newId withDefaults (readData c st);
                 st1 = writeData c st d;
                 idxs = indexRecord (loadIndexesFromMeta c st1) newId withDefaults;
                 st2 = Storage_writeMeta st1 (name c) (buildMeta c idxs)
             in (Inr (toDocument newId withDefaults), c, st2))
          else
            (Inr (toDocument newId withDefaults),
             c\<lparr>data := setprop newId withDefaults (data c),
               indexes := indexRecord (indexes c) newId withDefaults\<rparr>,
             st))"

text \<open>The first loop of \<^verbatim>\<open>addMany\<close>: every record gets its defaults and is validated,
  and receives an identifier; \<open>ids k\<close> is what the \<open>k\<close>-th call of \<^verbatim>\<open>generateId()\<close>
  returns.\<close>

fun validateAll ::
  "Collection \<Rightarrow> (nat \<Rightarrow> string) \<Rightarrow> nat \<Rightarrow> jsobject list \<Rightarrow> error + (string \<times> jsobject) list" where
  "validateAll c ids k [] = Inr []"
| "validateAll c ids k (record # records) =
     (let withDefaults = applyDefaults c record in
      case validateRecord withDefaults (schema c) False of
        Some e \<Rightarrow> Inl e
      | None \<Rightarrow> (case validateAll c ids (Suc k) records of
                   Inl e \<Rightarrow> Inl e
                 | Inr validated \<Rightarrow> Inr ((ids k, withDefaults) # validated)))"

text \<open>The second loop: every validated record is stored and indexed.\<close>

fun storeAll ::
  "DataMap \<Rightarrow> (string \<times> Index) list \<Rightarrow> (string \<times> jsobject) list \<Rightarrow> DataMap \<times> (string \<times> Index) list" where
  "storeAll d idxs [] = (d, idxs)"
| "storeAll d idxs (p # validated) =
     storeAll (setprop (fst p) (snd p) d) (indexRecord idxs (fst p) (snd p)) validated"

definition addMany ::
  "Collection \<Rightarrow> Storage \<Rightarrow> (nat \<Rightarrow> string) \<Rightarrow> jsobject list \<Rightarrow> jsobject list outcome" where
  "addMany c st ids records =
     (case validateAll c ids 0 records of
        Inl e \<Rightarrow> (Inl e, c, st)
      | Inr validated \<Rightarrow>
          (let docs = map (\<lambda>p. toDocument (fst p) (snd p)) validated in
           if fileMode c then
             (let stored = storeAll (readData c st) (loadIndexesFromMeta c st) validated;
                  st1 = writeData c st (fst stored);
                  st2 = Storage_writeMeta st1 (name c) (buildMeta c (snd stored))
              in (Inr docs, c, st2))
           else
             (let stored = storeAll (data c) (indexes c) validated
              in (Inr docs, c\<lparr>data := fst stored, indexes := snd stored\<rparr>, st))))"

text \<open>\<^verbatim>\<open>get\<close>: \<open>None\<close> is \<^verbatim>\<open>undefined\<close>.\<close>

definition get :: "Collection \<Rightarrow> Storage \<Rightarrow> string \<Rightarrow> jsobject option" where
  "get c st i =
     (case map_of (if fileMode c then readData c st else data c) i of
        None \<Rightarrow> None
      | Some record \<Rightarrow> Some (toDocument i record))"

definition all :: "Collection \<Rightarrow> Storage \<Rightarrow> jsobject list" where
  "all c st = map (\<lambda>p. toDocument (fst p) (snd p)) (if fileMode c then readData c st else data c)"

text \<open>\<^verbatim>\<open>new Set(xs)\<close> as a list: the first occurrence of every element, in order.\<close>

definition uniq :: "'a list \<Rightarrow> 'a list" where
  "uniq xs = rev (remdups (rev xs))"

text \<open>
  The loop of \<^verbatim>\<open>find\<close> over the entries of the query; \<open>resultIds\<close> is \<open>None\<close> for
  \<^verbatim>\<open>null\<close>. The result is the error thrown, or the identifiers left (none when the
  loop returns early).
\<close>

fun find_loop ::
  "(rat \<Rightarrow> string) \<Rightarrow> (string \<times> Index) list \<Rightarrow> (string \<times> string) list \<Rightarrow> string list option
     \<Rightarrow> error + string list" where
  "find_loop numText idxs [] resultIds = Inr (case resultIds of None \<Rightarrow> [] | Some r \<Rightarrow> r)"
| "find_loop numText idxs (p # rest) resultIds =
     (case map_of idxs (fst p) of
        None \<Rightarrow> Inl (FieldNotIndexed (fst p))
      | Some idx \<Rightarrow>
          (case Index_find numText idx (snd p) of
             Inl e \<Rightarrow> Inl e
           | Inr found \<Rightarrow>
               (let ids = uniq found;
                    r = (case resultIds of
                           None \<Rightarrow> ids
                         | Some r0 \<Rightarrow> filter (\<lambda>i. i \<in> set ids) r0)
                in if r = [] then Inr [] else find_loop numText idxs rest (Some r))))"

text \<open>
  \<^verbatim>\<open>find\<close>. An element of the result is \<open>None\<close> where the code has \<^verbatim>\<open>undefined\<close>: in
  memory mode \<^verbatim>\<open>this.get(id)\<close> of an identifier the data does not hold. In file mode
  such an identifier gives \<^verbatim>\<open>{ _id: id, ...undefined }\<close>.
\<close>

definition find ::
  "(rat \<Rightarrow> string) \<Rightarrow> Collection \<Rightarrow> Storage \<Rightarrow> (string \<times> string) list
     \<Rightarrow> error + jsobject option list" where
  "find numText c st query =
     (if query = [] then Inr (map Some (all c st))
      else
        (case find_loop numText (if fileMode c then loadIndexesFromMeta c st else indexes c) query None of
           Inl e \<Rightarrow> Inl e
         | Inr ids \<Rightarrow>
             if fileMode c then
               (let d = readData c st in
                Inr (map (\<lambda>i. Some (toDocument i (case map_of d i of None \<Rightarrow> [] | Some r \<Rightarrow> r))) ids))
             else Inr (map (\<lambda>i. get c st i) ids)))"

definition update :: "Collection \<Rightarrow> Storage \<Rightarrow> string \<Rightarrow> jsobject \<Rightarrow> jsobject outcome" where
  "update c st i partial =
     (case validateRecord partial (schema c) True of
        Some e \<Rightarrow> (Inl e, c, st)
      | None \<Rightarrow>
          if fileMode c then
            (let d = readData c st in
             case map_of d i of
               None \<Rightarrow> (Inl (RecordNotFound i), c, st)
             | Some existing \<Rightarrow>
                 (let idxs = reindexRecord (loadIndexesFromMeta c st) i existing partial;
                      merged = assign existing partial;
                      st1 = writeData c st (setprop i merged d);
                      st2 = Storage_writeMeta st1 (name c) (buildMeta c idxs)
                  in (Inr (toDocument i merged), c, st2)))
          else
            (case map_of (data c) i of
               None \<Rightarrow> (Inl (RecordNotFound i), c, st)
             | Some existing \<Rightarrow>
                 (let merged = assign existing partial
                  in (Inr (toDocument i merged),
                      c\<lparr>data := setprop i merged (data c),
                        indexes := reindexRecord (indexes c) i existing partial\<rparr>,
                      st))))"

definition remove :: "Collection \<Rightarrow> Storage \<Rightarrow> string \<Rightarrow> unit outcome" where
  "remove c st i =
     (if fileMode c then
        (let d = readData c st in
         case map_of d i of
           None \<Rightarrow> (Inl (RecordNotFound i), c, st)
         | Some existing \<Rightarrow>
             (let idxs = unindexRecord (loadIndexesFromMeta c st) i existing;
                  st1 = writeData c st (delprop i d);
                  st2 = Storage_writeMeta st1 (name c) (buildMeta c idxs)
              in (Inr (), c, st2)))
      else
        (case map_of (data c) i of
           None \<Rightarrow> (Inl (RecordNotFound i), c, st)
         | Some existing \<Rightarrow>
             (Inr (),
              c\<lparr>data := delprop i (data c), indexes := unindexRecord (indexes c) i existing\<rparr>,
              st)))"

definition clear :: "Collection \<Rightarrow> Storage \<Rightarrow> Collection \<times> Storage" where
  "clear c st =
     (if fileMode c then
        (c, Storage_writeMeta (Storage_writeData st (name c) []) (name c) (buildMeta c []))
      else (c\<lparr>data := [], indexes := map (\<lambda>p. (fst p, Index_clear (snd p))) (indexes c)\<rparr>, st))"

definition count :: "Collection \<Rightarrow> Storage \<Rightarrow> nat" where
  "count c st = length (if fileMode c then readData c st else data c)"

section \<open>Notions for the properties of a collection\<close>

text \<open>The indexes a call works on, and the document \<^verbatim>\<open>find\<close> returns for an identifier.\<close>

definition activeIndexes :: "Collection \<Rightarrow> Storage \<Rightarrow> (string \<times> Index) list" where
  "activeIndexes c st = (if fileMode c then loadIndexesFromMeta c st else indexes c)"

definition foundDocument :: "Collection \<Rightarrow> Storage \<Rightarrow> string \<Rightarrow> jsobject option" where
  "foundDocument c st i =
     (if fileMode c
      then Some (toDocument i (case map_of (readData c st) i of None \<Rightarrow> [] | Some r \<Rightarrow> r))
      else get c st i)"

text \<open>What one entry of a query gives by itself: the error for a field without index,
  or what the index of the field answers.\<close>

definition answer :: "(rat \<Rightarrow> string) \<Rightarrow> (string \<times> Index) list \<Rightarrow> string \<times> string \<Rightarrow> error + string list" where
  "answer numText idxs p =
     (case map_of idxs (fst p) of
        None \<Rightarrow> Inl (FieldNotIndexed (fst p))
      | Some idx \<Rightarrow> Index_find numText idx (snd p))"

definition answered :: "(rat \<Rightarrow> string) \<Rightarrow> (string \<times> Index) list \<Rightarrow> string \<times> string \<Rightarrow> bool" where
  "answered numText idxs p = (\<not> isl (answer numText idxs p))"

text \<open>An identifier lies in the result set of every entry of \<open>ps\<close>.\<close>

definition inAll :: "(rat \<Rightarrow> string) \<Rightarrow> (string \<times> Index) list \<Rightarrow> (string \<times> string) list \<Rightarrow> string \<Rightarrow> bool" where
  "inAll numText idxs ps i = list_all (\<lambda>p. i \<in> set (projr (answer numText idxs p))) ps"

text \<open>The intersection of the result sets of the entries, in the order of the first
  result.\<close>

definition common :: "(rat \<Rightarrow> string) \<Rightarrow> (string \<times> Index) list \<Rightarrow> (string \<times> string) list \<Rightarrow> string list" where
  "common numText idxs ps =
     (case ps of
        [] \<Rightarrow> []
      | p # rest \<Rightarrow> filter (inAll numText idxs rest) (uniq (projr (answer numText idxs p))))"

text \<open>
  Two schemas agree: the same field names, and for every field the same type, the
  same indexed flag and the same case-folding setting. A field definition documents
  both options as \<^verbatim>\<open>default false\<close>, and an index is built with
  \<^verbatim>\<open>indexSetting?.ignoreCase ?? false\<close>: the indexed flag of a field is whether
  \<^verbatim>\<open>index\<close> is set, and its case-folding setting is whether its index folds case.
\<close>

definition fieldsAgree :: "Schema \<Rightarrow> Schema \<Rightarrow> string \<Rightarrow> bool" where
  "fieldsAgree a b f =
     (case (map_of a f, map_of b f) of
        (Some x, Some y) \<Rightarrow>
          ftype x = ftype y \<and> truthy (index x) = truthy (index y) \<and>
          ignoreCaseFlag x = ignoreCaseFlag y
      | _ \<Rightarrow> False)"

definition schemasAgree :: "Schema \<Rightarrow> Schema \<Rightarrow> bool" where
  "schemasAgree a b =
     (set (map fst a) = set (map fst b) \<and> list_all (fieldsAgree a b) (map fst a))"

text \<open>What one round of the loop of \<^verbatim>\<open>schemasMatch\<close> lets pass for a key: the
  \<^verbatim>\<open>ignoreCase\<close> properties are compared as they are written, an absent one being
  \<^verbatim>\<open>undefined\<close> and so different from \<^verbatim>\<open>false\<close>.\<close>

definition roundPasses :: "Schema \<Rightarrow> Schema \<Rightarrow> string \<Rightarrow> bool" where
  "roundPasses a b f =
     (case (map_of a f, map_of b f) of
        (Some x, Some y) \<Rightarrow>
          ftype x = ftype y \<and> truthy (index x) = truthy (index y) \<and>
          ignoreCaseSetting x = ignoreCaseSetting y
      | _ \<Rightarrow> False)"

text \<open>A run of calls on a collection, each with what \<^verbatim>\<open>generateId()\<close> returns in it.\<close>

datatype CollectionOp =
    OpCAdd string jsobject
  | OpCAddMany "nat \<Rightarrow> string" "jsobject list"
  | OpCUpdate string jsobject
  | OpCRemove string
  | OpCClear

fun applyCall :: "Collection \<times> Storage \<Rightarrow> CollectionOp \<Rightarrow> Collection \<times> Storage" where
  "applyCall (c, st) (OpCAdd i r) = snd (add c st i r)"
| "applyCall (c, st) (OpCAddMany ids rs) = snd (addMany c st ids rs)"
| "applyCall (c, st) (OpCUpdate i p) = snd (update c st i p)"
| "applyCall (c, st) (OpCRemove i) = snd (remove c st i)"
| "applyCall (c, st) OpCClear = clear c st"

definition runCalls :: "Collection \<times> Storage \<Rightarrow> CollectionOp list \<Rightarrow> Collection \<times> Storage" where
  "runCalls cs ops = foldl applyCall cs ops"

text \<open>\<^verbatim>\<open>add\<close> called on every record in order, the \<open>k\<close>-th call with the identifier
  \<open>ids k\<close>; the run stops at the first error.\<close>

fun addEach ::
  "Collection \<Rightarrow> Storage \<Rightarrow> (nat \<Rightarrow> string) \<Rightarrow> nat \<Rightarrow> jsobject list \<Rightarrow> jsobject list outcome" where
  "addEach c st ids k [] = (Inr [], c, st)"
| "addEach c st ids k (r # rs) =
     (case add c st (ids k) r of
        (Inl e, c', st') \<Rightarrow> (Inl e, c', st')
      | (Inr doc, c', st') \<Rightarrow>
          (case addEach c' st' ids (Suc k) rs of
             (Inl e, c'', st'') \<Rightarrow> (Inl e, c'', st'')
           | (Inr docs, c'', st'') \<Rightarrow> (Inr (doc # docs), c'', st'')))"

text \<open>What every call in file mode maintains: the collection keeps nothing in process,
  and the meta artifact exists and records a schema that matches the collection's.\<close>

definition fileInv :: "Collection \<times> Storage \<Rightarrow> bool" where
  "fileInv cs =
     (fileMode (fst cs) \<and> adapter (snd cs) = FileAdapter \<and> data (fst cs) = [] \<and> indexes (fst cs) = [] \<and>
      (\<exists>m. Storage_readMeta (snd cs) (name (fst cs)) = Some m \<and> schemasMatch (fst cs) (meta_schema m)))"


text \<open>The data a call sees: in file mode what it reads from the storage.\<close>

definition currentData :: "Collection \<Rightarrow> Storage \<Rightarrow> DataMap" where
  "currentData c st = (if fileMode c then readData c st else data c)"

text \<open>The records of a batch with their defaults and identifiers, as the first loop of
  \<^verbatim>\<open>addMany\<close> collects them when every record is valid.\<close>

fun validatedOf :: "Collection \<Rightarrow> (nat \<Rightarrow> string) \<Rightarrow> nat \<Rightarrow> jsobject list \<Rightarrow> (string \<times> jsobject) list" where
  "validatedOf c ids k [] = []"
| "validatedOf c ids k (r # rs) = (ids k, applyDefaults c r) # validatedOf c ids (Suc k) rs"

text \<open>A record passes \<^verbatim>\<open>add\<close>'s validation once its defaults are applied.\<close>

definition validRecord :: "Collection \<Rightarrow> jsobject \<Rightarrow> bool" where
  "validRecord c r = (validateRecord (applyDefaults c r) (schema c) False = None)"

text \<open>The values a record, with its defaults, has in the indexed fields are values
  JSON keeps as they are: no infinite number among them.\<close>

definition jsonKeepsIndexed :: "Collection \<Rightarrow> jsobject \<Rightarrow> bool" where
  "jsonKeepsIndexed c r =
     list_all (\<lambda>p. truthy (index (snd p)) \<longrightarrow>
                 json_val (getprop (applyDefaults c r) (fst p)) = getprop (applyDefaults c r) (fst p))
       (schema c)"

text \<open>The indexed fields of a schema, in the schema's order.\<close>

definition indexedFields :: "Schema \<Rightarrow> Schema" where
  "indexedFields sch = filter (\<lambda>p. truthy (index (snd p))) sch"

text \<open>The indexes have the shape the schema gives them: one for every indexed field, in
  order, with the field's name, type and case-folding flag. And their entries are
  entries JSON keeps as they are.\<close>

definition shaped :: "Schema \<Rightarrow> (string \<times> Index) list \<Rightarrow> bool" where
  "shaped sch idxs =
     list_all2 (\<lambda>p q. fst q = fst p \<and> field (snd q) = fst p \<and> fieldType (snd q) = ftype (snd p) \<and>
                      ignoreCase (snd q) = ignoreCaseFlag (snd p))
       (indexedFields sch) idxs"

definition jsonKeepsEntries :: "(string \<times> Index) list \<Rightarrow> bool" where
  "jsonKeepsEntries idxs = list_all (\<lambda>q. json_entries (entries (snd q)) = entries (snd q)) idxs"

section \<open>The data of the scenarios\<close>

text \<open>The schema of the specification's scenarios: a name, indexed without regard to
  case, an indexed age, and a sex without index; and an adapter of either kind that
  holds nothing yet.\<close>

definition users_schema :: Schema where
  "users_schema =
     [(''name'', \<lparr>ftype = TString, index = Some True,
                  indexSetting = Some \<lparr>setting_ignoreCase = Some True\<rparr>, fdefault = Undefined\<rparr>),
      (''age'', \<lparr>ftype = TNumber, index = Some True, indexSetting = None, fdefault = Undefined\<rparr>),
      (''sex'', \<lparr>ftype = TString, index = None, indexSetting = None, fdefault = Undefined\<rparr>)]"

definition empty_storage :: "AdapterKind \<Rightarrow> Storage" where
  "empty_storage k =
     \<lparr>adapter = k, dataFiles = [], metaFiles = [], writeDataCalls = 0, writeMetaCalls = 0\<rparr>"

definition josef :: jsobject where
  "josef = [(''name'', Str ''Josef''), (''age'', Num (Fin 30)), (''sex'', Str ''male'')]"

definition josefina :: jsobject where
  "josefina = [(''name'', Str ''Josefina''), (''age'', Num (Fin 25)), (''sex'', Str ''female'')]"

text \<open>A collection of users over an adapter of the given kind, holding the two records
  under the identifiers \<^verbatim>\<open>1\<close> and \<^verbatim>\<open>2\<close>.\<close>

definition two_users :: "AdapterKind \<Rightarrow> Collection \<times> Storage" where
  "two_users k =
     runCalls (new_Collection ''users'' users_schema (empty_storage k))
       [OpCAdd ''1'' josef, OpCAdd ''2'' josefina]"

text \<open>A record whose name is a number, which the validation rejects, and an age no
  JSON text can hold.\<close>

definition misnamed :: jsobject where
  "misnamed = [(''name'', Num (Fin 1)), (''age'', Num (Fin 40)), (''sex'', Str ''male'')]"

definition ageless :: jsobject where
  "ageless = [(''name'', Str ''Ann''), (''age'', Num PosInf), (''sex'', Str ''female'')]"


text \<open>A schema of one indexed name that leaves the case-folding setting out, the same
  schema with the setting written as \<^verbatim>\<open>false\<close>, and a disk-backed collection of the
  first schema that holds one record.\<close>

definition names_schema :: Schema where
  "names_schema =
     [(''name'', \<lparr>ftype = TString, index = Some True, indexSetting = None, fdefault = Undefined\<rparr>)]"

definition names_schema_explicit :: Schema where
  "names_schema_explicit =
     [(''name'', \<lparr>ftype = TString, index = Some True,
                  indexSetting = Some \<lparr>setting_ignoreCase = Some False\<rparr>, fdefault = Undefined\<rparr>)]"

definition one_name :: "Collection \<times> Storage" where
  "one_name =
     runCalls (new_Collection ''names'' names_schema (empty_storage FileAdapter))
       [OpCAdd ''1'' [(''name'', Str ''Josef'')]]"

text \<open>A collection of users over an adapter of the given kind that holds the record
  with the infinite age under the identifier \<^verbatim>\<open>1\<close>.\<close>

definition one_ageless :: "AdapterKind \<Rightarrow> Collection \<times> Storage" where
  "one_ageless k =
     runCalls (new_Collection ''users'' users_schema (empty_storage k)) [OpCAdd ''1'' ageless]"

section \<open>The order of typed values\<close>

lemma num_lt_irrefl: "\<not> num_lt a a"
  by (cases a) auto

lemma num_lt_trans: "num_lt a b \<Longrightarrow> num_lt b c \<Longrightarrow> num_lt a c"
  by (cases a; cases b; cases c) auto

lemma num_lt_total: "a \<noteq> NaN \<Longrightarrow> b \<noteq> NaN \<Longrightarrow> num_lt a b \<or> a = b \<or> num_lt b a"
  by (cases a; cases b) auto

lemma js_lt_Str [simp]: "js_lt (Str s) (Str t) = (s < t)"
  by (simp add: js_lt_def toPrimitive_def)

lemma js_lt_Num [simp]: "js_lt (Num a) (Num b) = num_lt a b"
  by (simp add: js_lt_def toPrimitive_def toNumber_def)

lemma js_lt_Bool [simp]: "js_lt (Bool a) (Bool b) = (\<not> a \<and> b)"
  by (simp add: js_lt_def toPrimitive_def toNumber_def)

lemma js_lt_irrefl: "hasType t a \<Longrightarrow> \<not> js_lt a a"
  by (cases t; cases a) (auto simp: hasType_def num_lt_irrefl)

lemma js_lt_trans: "hasType t a \<Longrightarrow> hasType t b \<Longrightarrow> hasType t c \<Longrightarrow> js_lt a b \<Longrightarrow> js_lt b c \<Longrightarrow> js_lt a c"
  by (cases t; cases a; cases b; cases c) (auto simp: hasType_def intro: num_lt_trans)

lemma js_lt_total: "hasType t a \<Longrightarrow> hasType t b \<Longrightarrow> js_lt a b \<or> a = b \<or> js_lt b a"
  using num_lt_total by (cases t; cases a; cases b) (auto simp: hasType_def isNaN_def)

lemma strict_eq_typed: "hasType t a \<Longrightarrow> strict_eq a b = (a = b)"
  by (cases t; cases a) (auto simp: hasType_def strict_eq_def isNaN_def)


section \<open>Binary search\<close>

lemma compare_neg [simp]: "(compare a b < 0) = js_lt a b"
  by (simp add: compare_def)

lemma lowerBound_loop_spec:
  assumes mono: "\<And>i j. i \<le> j \<Longrightarrow> j < length es \<Longrightarrow> js_lt (evalue (es ! j)) t \<Longrightarrow> js_lt (evalue (es ! i)) t"
    and "lo \<le> hi" and "hi \<le> length es"
    and "\<And>i. i < lo \<Longrightarrow> js_lt (evalue (es ! i)) t"
    and "\<And>i. hi \<le> i \<Longrightarrow> i < length es \<Longrightarrow> \<not> js_lt (evalue (es ! i)) t"
  shows "lowerBound_loop es t lo hi \<le> length es \<and>
         (\<forall>i < lowerBound_loop es t lo hi. js_lt (evalue (es ! i)) t) \<and>
         (\<forall>i. lowerBound_loop es t lo hi \<le> i \<and> i < length es \<longrightarrow> \<not> js_lt (evalue (es ! i)) t)"
  using assms
proof (induction es t lo hi rule: lowerBound_loop.induct)
  case (1 es t lo hi)
  note mono = "1.prems"(1)
  show ?case
  proof (cases "lo < hi")
    case False
    with "1.prems"(2) have "lo = hi" by simp
    then have "lowerBound_loop es t lo hi = lo"
      by (subst lowerBound_loop.simps) simp
    with \<open>lo = hi\<close> "1.prems"(3,4,5) show ?thesis by auto
  next
    case True
    define mid where "mid = (lo + hi) div 2"
    have mid: "lo \<le> mid" "mid < hi" using True by (auto simp: mid_def)
    have midlen: "mid < length es" using mid "1.prems"(3) by simp
    show ?thesis
    proof (cases "js_lt (evalue (es ! mid)) t")
      case lt: True
      have below: "js_lt (evalue (es ! i)) t" if "i < mid + 1" for i
        using mono[of i mid] that midlen lt by simp
      have eq: "lowerBound_loop es t lo hi = lowerBound_loop es t (mid + 1) hi"
        using True lt by (subst lowerBound_loop.simps) (simp add: mid_def Let_def)
      have "compare (evalue (es ! mid)) t < 0" using lt by simp
      from "1.IH"(1)[OF True mid_def this mono _ "1.prems"(3) below "1.prems"(5)] mid
      show ?thesis unfolding eq by simp
    next
      case ge: False
      have above: "\<not> js_lt (evalue (es ! i)) t" if "mid \<le> i" "i < length es" for i
        using mono[of mid i] that ge by blast
      have eq: "lowerBound_loop es t lo hi = lowerBound_loop es t lo mid"
        using True ge by (subst lowerBound_loop.simps) (simp add: mid_def Let_def)
      have nc: "\<not> compare (evalue (es ! mid)) t < 0" using ge by simp
      have "mid \<le> length es" using midlen by simp
      from "1.IH"(2)[OF True mid_def nc mono mid(1) this "1.prems"(4) above]
      show ?thesis unfolding eq by simp
    qed
  qed
qed


lemma boundary_filter:
  assumes "k \<le> length es" "\<forall>i<k. P (es ! i)" "\<forall>i. k \<le> i \<and> i < length es \<longrightarrow> \<not> P (es ! i)"
  shows "take k es = filter P es" and "drop k es = filter (\<lambda>e. \<not> P e) es"
proof -
  have a: "\<forall>x \<in> set (take k es). P x"
    using assms(1,2) by (auto simp: in_set_conv_nth)
  have b: "\<forall>x \<in> set (drop k es). \<not> P x"
    using assms(1,3) by (auto simp: in_set_conv_nth)
  have "filter P es = filter P (take k es) @ filter P (drop k es)"
    by (metis append_take_drop_id filter_append)
  also have "\<dots> = take k es" using a b by (simp add: filter_id_conv filter_empty_conv)
  finally show "take k es = filter P es" by simp
  have "filter (\<lambda>e. \<not> P e) es = filter (\<lambda>e. \<not> P e) (take k es) @ filter (\<lambda>e. \<not> P e) (drop k es)"
    by (metis append_take_drop_id filter_append)
  also have "\<dots> = drop k es" using a b by (simp add: filter_id_conv filter_empty_conv)
  finally show "drop k es = filter (\<lambda>e. \<not> P e) es" by simp
qed

lemma sorted_mono:
  assumes "sorted_entries es" "typed_entries t es" "hasType t v"
    and "i \<le> j" "j < length es" "js_lt (evalue (es ! j)) v"
  shows "js_lt (evalue (es ! i)) v"
proof (cases "i = j")
  case True then show ?thesis using assms by simp
next
  case False
  then have "i < j" using assms(4) by simp
  then have nlt: "\<not> js_lt (evalue (es ! j)) (evalue (es ! i))"
    using assms(1,5) by (simp add: sorted_entries_def sorted_wrt_iff_nth_less)
  have ti: "hasType t (evalue (es ! i))" and tj: "hasType t (evalue (es ! j))"
    using assms(2,4,5) by (auto simp: typed_entries_def list_all_length)
  from js_lt_total[OF ti tj] nlt consider "js_lt (evalue (es ! i)) (evalue (es ! j))" | "evalue (es ! i) = evalue (es ! j)"
    by blast
  then show ?thesis
  proof cases
    case 1 then show ?thesis using js_lt_trans[OF ti tj assms(3)] assms(6) by blast
  next
    case 2 then show ?thesis using assms(6) by simp
  qed
qed

lemma lowerBound_spec:
  assumes "sorted_entries (entries idx)" "typed_entries t (entries idx)" "hasType t v"
  shows "lowerBound idx v \<le> length (entries idx) \<and>
         (\<forall>i < lowerBound idx v. js_lt (evalue (entries idx ! i)) v) \<and>
         (\<forall>i. lowerBound idx v \<le> i \<and> i < length (entries idx) \<longrightarrow> \<not> js_lt (evalue (entries idx ! i)) v)"
  unfolding lowerBound_def
  by (rule lowerBound_loop_spec) (use sorted_mono[OF assms] in auto)

lemma lowerBound_sorted:
  assumes "sorted_entries (entries idx)" "typed_entries t (entries idx)" "hasType t v"
  shows "take (lowerBound idx v) (entries idx) = filter (\<lambda>e. js_lt (evalue e) v) (entries idx)"
    and "drop (lowerBound idx v) (entries idx) = filter (\<lambda>e. \<not> js_lt (evalue e) v) (entries idx)"
  using boundary_filter[of "lowerBound idx v" "entries idx" "\<lambda>e. js_lt (evalue e) v"]
    lowerBound_spec[OF assms] by blast+

section \<open>Index: add and remove keep the entries sorted\<close>

lemma normalize_typed: "hasType t v \<Longrightarrow> hasType t (Index_normalize idx v)"
  by (cases t; cases v) (auto simp: hasType_def Index_normalize_def)

lemma Index_add_entries:
  assumes "sorted_entries (entries idx)" "typed_entries t (entries idx)" "hasType t v"
  shows "entries (Index_add idx i v) =
           filter (\<lambda>e. js_lt (evalue e) (Index_normalize idx v)) (entries idx) @
           \<lparr>evalue = Index_normalize idx v, eid = i\<rparr> #
           filter (\<lambda>e. \<not> js_lt (evalue e) (Index_normalize idx v)) (entries idx)"
  using lowerBound_sorted[OF assms(1,2) normalize_typed[OF assms(3)]]
  by (simp add: Index_add_def Let_def splice_insert_def)

lemma js_lt_asym: "hasType t a \<Longrightarrow> hasType t b \<Longrightarrow> js_lt a b \<Longrightarrow> \<not> js_lt b a"
  using js_lt_trans js_lt_irrefl by blast

lemma Index_add_sorted:
  assumes "sorted_entries (entries idx)" "typed_entries t (entries idx)" "hasType t v"
  shows "sorted_entries (entries (Index_add idx i v))" and "typed_entries t (entries (Index_add idx i v))"
proof -
  let ?nv = "Index_normalize idx v"
  have tn: "hasType t ?nv" by (rule normalize_typed[OF assms(3)])
  have te: "\<And>e. e \<in> set (entries idx) \<Longrightarrow> hasType t (evalue e)"
    using assms(2) by (simp add: typed_entries_def list_all_iff)
  have s1: "sorted_entries (filter (\<lambda>e. js_lt (evalue e) ?nv) (entries idx))"
    and s2: "sorted_entries (filter (\<lambda>e. \<not> js_lt (evalue e) ?nv) (entries idx))"
    using assms(1) by (simp_all add: sorted_entries_def sorted_wrt_filter)
  have cross: "\<not> js_lt (evalue b) (evalue a)"
    if "a \<in> set (entries idx)" "js_lt (evalue a) ?nv" "b \<in> set (entries idx)" "\<not> js_lt (evalue b) ?nv" for a b
    using js_lt_trans[OF te[OF that(3)] te[OF that(1)] tn] that by blast
  show "sorted_entries (entries (Index_add idx i v))"
    unfolding Index_add_entries[OF assms]
    using s1 s2 cross js_lt_asym[OF _ tn] te
    by (auto simp: sorted_entries_def sorted_wrt_append)
  show "typed_entries t (entries (Index_add idx i v))"
    unfolding Index_add_entries[OF assms]
    using te tn by (auto simp: typed_entries_def list_all_iff)
qed


lemma remove_loop_remove1:
  assumes "k \<le> length es"
    and "\<And>a b. a \<in> set (drop k es) \<Longrightarrow> \<not> strict_eq (evalue a) nv \<Longrightarrow>
           b \<in> set (drop k es) \<Longrightarrow> \<not> js_lt (evalue b) (evalue a) \<Longrightarrow> evalue b \<noteq> nv"
    and "sorted_entries es"
    and "\<And>a. a \<in> set es \<Longrightarrow> strict_eq (evalue a) nv = (evalue a = nv)"
  shows "remove_loop es nv i k = take k es @ remove1 \<lparr>evalue = nv, eid = i\<rparr> (drop k es)"
  using assms
proof (induction es nv i k rule: remove_loop.induct)
  case (1 es nv i k)
  show ?case
  proof (cases "k < length es")
    case False
    then show ?thesis by (subst remove_loop.simps) simp
  next
    case True
    have dk: "drop k es = es ! k # drop (Suc k) es"
      using True by (simp add: Cons_nth_drop_Suc)
    have kin: "es ! k \<in> set es" using True by simp
    show ?thesis
    proof (cases "strict_eq (evalue (es ! k)) nv")
      case neq: False
      have later: "\<not> js_lt (evalue b) (evalue (es ! k))" if "b \<in> set (drop (Suc k) es)" for b
      proof -
        from that obtain j where j: "j < length es - Suc k" "b = es ! (Suc k + j)"
          by (auto simp: in_set_conv_nth)
        then have "k < Suc k + j" "Suc k + j < length es" by auto
        then show ?thesis using "1.prems"(3) j(2)
          by (simp add: sorted_entries_def sorted_wrt_iff_nth_less)
      qed
      have "evalue b \<noteq> nv" if "b \<in> set (drop k es)" for b
      proof (cases "b = es ! k")
        case True
        then show ?thesis using neq "1.prems"(4)[OF kin] by simp
      next
        case False
        then have "b \<in> set (drop (Suc k) es)" using that dk by simp
        from "1.prems"(2)[of "es ! k" b] neq that later[OF this] dk show ?thesis by simp
      qed
      then have "\<lparr>evalue = nv, eid = i\<rparr> \<notin> set (drop k es)" by force
      then have "remove1 \<lparr>evalue = nv, eid = i\<rparr> (drop k es) = drop k es"
        by (simp add: remove1_idem)
      moreover have "remove_loop es nv i k = es"
        using True neq by (subst remove_loop.simps) (simp add: Let_def)
      ultimately show ?thesis by simp
    next
      case eq: True
      then have v: "evalue (es ! k) = nv" using "1.prems"(4)[OF kin] by simp
      show ?thesis
      proof (cases "eid (es ! k) = i")
        case True
        then have "es ! k = \<lparr>evalue = nv, eid = i\<rparr>" using v by simp
        moreover have "remove_loop es nv i k = splice_delete k es"
          using \<open>k < length es\<close> eq True by (subst remove_loop.simps) (simp add: Let_def)
        ultimately show ?thesis using dk by (simp add: splice_delete_def)
      next
        case False
        then have ne: "es ! k \<noteq> \<lparr>evalue = nv, eid = i\<rparr>" by auto
        have step: "remove_loop es nv i k = remove_loop es nv i (k + 1)"
          using True eq False by (subst remove_loop.simps) (simp add: Let_def)
        have sub: "set (drop (k + 1) es) \<subseteq> set (drop k es)" using dk by auto
        have IH: "remove_loop es nv i (k + 1) =
              take (k + 1) es @ remove1 \<lparr>evalue = nv, eid = i\<rparr> (drop (k + 1) es)"
        proof (rule "1.IH"[OF True refl _ _ _ _ "1.prems"(3)])
          show "\<not> \<not> strict_eq (evalue (es ! k)) nv" using eq by simp
          show "eid (es ! k) \<noteq> i" by (rule False)
          show "k + 1 \<le> length es" using True by simp
          show "\<And>a b. a \<in> set (drop (k + 1) es) \<Longrightarrow> \<not> strict_eq (evalue a) nv \<Longrightarrow>
             b \<in> set (drop (k + 1) es) \<Longrightarrow> \<not> js_lt (evalue b) (evalue a) \<Longrightarrow> evalue b \<noteq> nv"
            using "1.prems"(2) sub by blast
          show "\<And>a. a \<in> set es \<Longrightarrow> strict_eq (evalue a) nv = (evalue a = nv)"
            by (rule "1.prems"(4))
        qed
        have "take (k + 1) es = take k es @ [es ! k]"
          using True by (simp add: take_Suc_conv_app_nth)
        then show ?thesis using step IH dk ne by simp
      qed
    qed
  qed
qed


lemma hasType_normalize_iff: "hasType t (Index_normalize idx v) = hasType t v"
  by (cases t; cases v) (auto simp: hasType_def Index_normalize_def)

lemma Index_remove_entries:
  assumes "sorted_entries (entries idx)" "typed_entries t (entries idx)"
  shows "entries (Index_remove idx i v) =
           remove1 \<lparr>evalue = Index_normalize idx v, eid = i\<rparr> (entries idx)"
proof -
  let ?nv = "Index_normalize idx v" and ?es = "entries idx"
  let ?k = "lowerBound idx ?nv"
  let ?e = "\<lparr>evalue = ?nv, eid = i\<rparr>"
  have te: "\<And>e. e \<in> set ?es \<Longrightarrow> hasType t (evalue e)"
    using assms(2) by (simp add: typed_entries_def list_all_iff)
  have seq: "\<And>a. a \<in> set ?es \<Longrightarrow> strict_eq (evalue a) ?nv = (evalue a = ?nv)"
    using te strict_eq_typed by blast
  have rl: "entries (Index_remove idx i v) = remove_loop ?es ?nv i ?k"
    by (simp add: Index_remove_def Let_def)
  show ?thesis
  proof (cases "hasType t ?nv")
    case tn: True
    note lb = lowerBound_sorted[OF assms tn]
    have kle: "?k \<le> length ?es" using lowerBound_spec[OF assms tn] by blast
    have notin: "?e \<notin> set (take ?k ?es)"
      unfolding lb using js_lt_irrefl[OF tn] by auto
    have run: "evalue b \<noteq> ?nv"
      if "a \<in> set (drop ?k ?es)" "\<not> strict_eq (evalue a) ?nv" "b \<in> set (drop ?k ?es)"
         "\<not> js_lt (evalue b) (evalue a)" for a b
    proof
      assume b: "evalue b = ?nv"
      have ain: "a \<in> set ?es" and age: "\<not> js_lt (evalue a) ?nv"
        using that(1) unfolding lb by auto
      have "evalue a \<noteq> ?nv" using that(2) seq[OF ain] by simp
      then have "js_lt ?nv (evalue a)" using js_lt_total[OF te[OF ain] tn] age by blast
      then show False using that(4) b by simp
    qed
    have "remove_loop ?es ?nv i ?k = take ?k ?es @ remove1 ?e (drop ?k ?es)"
      by (rule remove_loop_remove1[OF kle run assms(1) seq])
    also have "\<dots> = remove1 ?e (take ?k ?es @ drop ?k ?es)"
      using notin by (simp only: remove1_append if_False)
    also have "\<dots> = remove1 ?e ?es" by simp
    finally show ?thesis using rl by simp
  next
    case False
    have notin: "?e \<notin> set ?es" using te False by force
    have "remove_loop ?es ?nv i ?k = ?es"
    proof (cases "?k \<le> length ?es")
      case True
      have "remove_loop ?es ?nv i ?k = take ?k ?es @ remove1 ?e (drop ?k ?es)"
      proof (rule remove_loop_remove1[OF True _ assms(1) seq])
        fix a b assume "b \<in> set (drop ?k ?es)"
        then have "b \<in> set ?es" by (rule in_set_dropD)
        then show "evalue b \<noteq> ?nv" using te False by force
      qed
      moreover have "?e \<notin> set (drop ?k ?es)" using notin in_set_dropD by fast
      ultimately show ?thesis by (simp add: remove1_idem)
    next
      case False
      then show ?thesis by (subst remove_loop.simps) simp
    qed
    then show ?thesis using rl notin by (simp add: remove1_idem)
  qed
qed


lemma sorted_wrt_remove1: "sorted_wrt P xs \<Longrightarrow> sorted_wrt P (remove1 x xs)"
proof (induction xs)
  case Nil then show ?case by simp
next
  case (Cons y ys)
  have "set (remove1 x ys) \<subseteq> set ys" by (rule set_remove1_subset)
  with Cons show ?case by auto
qed

lemma Index_remove_sorted:
  assumes "sorted_entries (entries idx)" "typed_entries t (entries idx)"
  shows "sorted_entries (entries (Index_remove idx i v))"
    and "typed_entries t (entries (Index_remove idx i v))"
proof -
  show "sorted_entries (entries (Index_remove idx i v))"
    unfolding Index_remove_entries[OF assms]
    using assms(1) by (simp add: sorted_entries_def sorted_wrt_remove1)
  have "set (remove1 \<lparr>evalue = Index_normalize idx v, eid = i\<rparr> (entries idx)) \<subseteq> set (entries idx)"
    by (rule set_remove1_subset)
  then show "typed_entries t (entries (Index_remove idx i v))"
    unfolding Index_remove_entries[OF assms]
    using assms(2) by (auto simp: typed_entries_def list_all_iff)
qed

lemma Index_add_fieldType [simp]: "fieldType (Index_add idx i v) = fieldType idx"
  by (simp add: Index_add_def Let_def)

lemma Index_remove_fieldType [simp]: "fieldType (Index_remove idx i v) = fieldType idx"
  by (simp add: Index_remove_def Let_def)

lemma run_ops_invariant:
  assumes "sorted_entries (entries idx)" "typed_entries t (entries idx)" "list_all (op_typed t) ops"
  shows "sorted_entries (entries (run_ops idx ops)) \<and> typed_entries t (entries (run_ops idx ops))"
  using assms
proof (induction ops arbitrary: idx)
  case Nil
  then show ?case by (simp add: run_ops_def)
next
  case (Cons op ops)
  have "sorted_entries (entries (apply_op idx op)) \<and> typed_entries t (entries (apply_op idx op))"
  proof (cases op)
    case (OpAdd i v)
    then show ?thesis using Cons.prems Index_add_sorted[of idx t v i] by simp
  next
    case (OpRemove i v)
    then show ?thesis using Cons.prems Index_remove_sorted[of idx t i v] by simp
  qed
  then have "sorted_entries (entries (run_ops (apply_op idx op) ops)) \<and>
             typed_entries t (entries (run_ops (apply_op idx op) ops))"
    using Cons.IH Cons.prems(3) by simp
  then show ?case by (simp add: run_ops_def)
qed

text \<open>
  Claim C2, as the code has it. Start from a new index and run any sequence of
  \<^verbatim>\<open>add\<close> and \<^verbatim>\<open>remove\<close> calls whose added values are of the index's field
  type. Then the entries are sorted ascending by normalized value; a further
  \<^verbatim>\<open>add\<close> places the new entry after every entry of smaller value and before every
  other entry, so before the entries of the same value: among entries of equal
  value the one inserted later comes first; and \<^verbatim>\<open>remove\<close> deletes the first entry
  with the normalized value and the identifier, leaving the order of the others.
\<close>

theorem Index_entries_sorted_newest_first:
  assumes "list_all (op_typed t) ops" and "hasType t v"
  shows "sorted_entries (entries (run_ops (new_Index f t ic) ops)) \<and>
         entries (Index_add (run_ops (new_Index f t ic) ops) i v) =
           filter (\<lambda>e. js_lt (evalue e) (Index_normalize (run_ops (new_Index f t ic) ops) v))
             (entries (run_ops (new_Index f t ic) ops)) @
           \<lparr>evalue = Index_normalize (run_ops (new_Index f t ic) ops) v, eid = i\<rparr> #
           filter (\<lambda>e. \<not> js_lt (evalue e) (Index_normalize (run_ops (new_Index f t ic) ops) v))
             (entries (run_ops (new_Index f t ic) ops)) \<and>
         entries (Index_remove (run_ops (new_Index f t ic) ops) j w) =
           remove1 \<lparr>evalue = Index_normalize (run_ops (new_Index f t ic) ops) w, eid = j\<rparr>
             (entries (run_ops (new_Index f t ic) ops))"
proof -
  have "sorted_entries (entries (new_Index f t ic))" "typed_entries t (entries (new_Index f t ic))"
    by (simp_all add: new_Index_def sorted_entries_def typed_entries_def)
  from run_ops_invariant[OF this assms(1)]
  have inv: "sorted_entries (entries (run_ops (new_Index f t ic) ops))"
    "typed_entries t (entries (run_ops (new_Index f t ic) ops))" by simp_all
  show ?thesis
    using inv(1) Index_add_entries[OF inv assms(2)] Index_remove_entries[OF inv] by simp
qed

theorem Index_entries_sorted_newest_first_witness:
  "list_all (op_typed TString) [OpAdd ''1'' (Str ''b''), OpAdd ''2'' (Str ''a''), OpRemove ''1'' (Str ''b''), OpAdd ''3'' (Str ''a'')] \<and>
   hasType TString (Str ''a'') \<and>
   map eid (entries (run_ops (new_Index ''name'' TString False)
      [OpAdd ''1'' (Str ''b''), OpAdd ''2'' (Str ''a''), OpRemove ''1'' (Str ''b''), OpAdd ''3'' (Str ''a'')])) = [''3'', ''2''] \<and>
   map eid (entries (Index_add (run_ops (new_Index ''name'' TString False)
      [OpAdd ''1'' (Str ''b''), OpAdd ''2'' (Str ''a''), OpRemove ''1'' (Str ''b''), OpAdd ''3'' (Str ''a'')]) ''4'' (Str ''a'')))
     = [''4'', ''3'', ''2'']"
proof -
  have h1: "list_all (op_typed TString) [OpAdd ''1'' (Str ''b''), OpAdd ''2'' (Str ''a''), OpRemove ''1'' (Str ''b''), OpAdd ''3'' (Str ''a'')]"
    by (simp add: hasType_def)
  have h2: "hasType TString (Str ''a'')" by (simp add: hasType_def)
  have e: "entries (run_ops (new_Index ''name'' TString False)
      [OpAdd ''1'' (Str ''b''), OpAdd ''2'' (Str ''a''), OpRemove ''1'' (Str ''b''), OpAdd ''3'' (Str ''a'')])
      = [\<lparr>evalue = Str ''a'', eid = ''3''\<rparr>, \<lparr>evalue = Str ''a'', eid = ''2''\<rparr>]"
    by code_simp
  have n: "Index_normalize (run_ops (new_Index ''name'' TString False)
      [OpAdd ''1'' (Str ''b''), OpAdd ''2'' (Str ''a''), OpRemove ''1'' (Str ''b''), OpAdd ''3'' (Str ''a'')]) (Str ''a'') = Str ''a''"
    by code_simp
  show ?thesis
    using Index_entries_sorted_newest_first[OF h1 h2, of "''name''" False "''4''" "''1''" "Str ''b''"] h1 h2
    by (simp add: e n)
qed

text \<open>Two entries of one value: the one added second stands first, so the order
  among equal values is not the insertion order.\<close>

theorem Index_tie_order_counterexample:
  "map eid (entries (run_ops (new_Index ''name'' TString False)
      [OpAdd ''1'' (Str ''a''), OpAdd ''2'' (Str ''a'')])) = [''2'', ''1'']"
  by code_simp

section \<open>Index: the lone wildcard\<close>

lemma lowerBound_loop_none_below:
  assumes "\<And>i. i < length es \<Longrightarrow> \<not> js_lt (evalue (es ! i)) t" "hi \<le> length es"
  shows "lowerBound_loop es t lo hi = lo"
  using assms
proof (induction es t lo hi rule: lowerBound_loop.induct)
  case (1 es t lo hi)
  show ?case
  proof (cases "lo < hi")
    case False
    then show ?thesis by (subst lowerBound_loop.simps) simp
  next
    case True
    define mid where "mid = (lo + hi) div 2"
    have m: "mid < hi" "mid \<le> length es" using True "1.prems"(2) by (auto simp: mid_def)
    then have nc: "\<not> compare (evalue (es ! mid)) t < 0" using "1.prems"(1)[of mid] "1.prems"(2) by simp
    have "lowerBound_loop es t lo hi = lowerBound_loop es t lo mid"
      using True nc by (subst lowerBound_loop.simps) (simp add: mid_def Let_def)
    also have "\<dots> = lo"
      by (rule "1.IH"(2)[OF True mid_def nc "1.prems"(1) m(2)])
    finally show ?thesis .
  qed
qed

lemma not_lt_empty_string: "hasType TString v \<Longrightarrow> \<not> js_lt v (Str [])"
  by (cases v) (auto simp: hasType_def)

text \<open>
  Claim C10. On an index over a string field whose entries hold strings, the query
  \<^verbatim>\<open>%\<close> raises no error; it is answered by the prefix branch with the empty prefix
  (the contains branch asks for more than one character), and the answer is the
  identifier of every entry, in the order of the entries.
\<close>

theorem Index_find_lone_wildcard:
  assumes "fieldType idx = TString" and "typed_entries TString (entries idx)"
  shows "Index_find numText idx ''%'' = Inr (prefixQuery numText idx '''') \<and>
         prefixQuery numText idx '''' = map eid (entries idx)"
proof -
  have "\<And>i. i < length (entries idx) \<Longrightarrow> \<not> js_lt (evalue (entries idx ! i)) (Str [])"
    using assms(2) not_lt_empty_string by (simp add: typed_entries_def list_all_length)
  then have "lowerBound idx (Str []) = 0"
    using lowerBound_loop_none_below[of "entries idx" "Str []" "length (entries idx)" 0]
    by (simp add: lowerBound_def)
  moreover have tw: "takeWhile (\<lambda>e. True) xs = xs" for xs :: "IndexEntry list"
    by (induction xs) simp_all
  ultimately have "prefixQuery numText idx '''' = map eid (entries idx)"
    by (simp add: prefixQuery_def toLowerCase_def tw)
  moreover have "Index_find numText idx ''%'' = Inr (prefixQuery numText idx '''')"
    using assms(1) by (simp add: Index_find_def)
  ultimately show ?thesis by simp
qed

theorem Index_find_lone_wildcard_witness:
  "fieldType (run_ops (new_Index ''name'' TString True) [OpAdd ''1'' (Str ''Josef''), OpAdd ''2'' (Str ''%'')]) = TString \<and>
   typed_entries TString (entries (run_ops (new_Index ''name'' TString True) [OpAdd ''1'' (Str ''Josef''), OpAdd ''2'' (Str ''%'')])) \<and>
   Index_find (\<lambda>q. []) (run_ops (new_Index ''name'' TString True) [OpAdd ''1'' (Str ''Josef''), OpAdd ''2'' (Str ''%'')]) ''%''
     = Inr [''2'', ''1'']"
proof -
  have e: "run_ops (new_Index ''name'' TString True) [OpAdd ''1'' (Str ''Josef''), OpAdd ''2'' (Str ''%'')]
     = \<lparr>field = ''name'', fieldType = TString, ignoreCase = True,
        entries = [\<lparr>evalue = Str ''%'', eid = ''2''\<rparr>, \<lparr>evalue = Str ''josef'', eid = ''1''\<rparr>]\<rparr>"
    by code_simp
  have h1: "fieldType (run_ops (new_Index ''name'' TString True) [OpAdd ''1'' (Str ''Josef''), OpAdd ''2'' (Str ''%'')]) = TString"
    by (simp add: e)
  have h2: "typed_entries TString (entries (run_ops (new_Index ''name'' TString True) [OpAdd ''1'' (Str ''Josef''), OpAdd ''2'' (Str ''%'')]))"
    by (simp add: e typed_entries_def hasType_def)
  show ?thesis
    using Index_find_lone_wildcard[OF h1 h2, of "\<lambda>q. []"] h1 h2 by (simp add: e)
qed

section \<open>Index: queries on number and boolean fields\<close>

lemma trim_Cons:
  assumes "\<not> isWhiteSpace c"
  shows "\<exists>r'. trim (c # r) = c # r'"
proof -
  have "dropWhile isWhiteSpace (rev r @ [c]) = dropWhile isWhiteSpace (rev r) @ [c]"
    using assms by (simp add: dropWhile_append3)
  then show ?thesis using assms by (simp add: trim_def)
qed

lemma unsignedDecimal_no_digit:
  assumes "\<not> isDigitIn 10 c" "c \<noteq> CHR ''.''" "c \<noteq> CHR ''I''"
  shows "unsignedDecimal (c # r) = NaN"
  using assms by (simp add: unsignedDecimal_def Let_def)


lemma operator_chars:
  "\<not> isWhiteSpace (CHR ''>'')" "\<not> isWhiteSpace (CHR ''<'')" "\<not> isWhiteSpace (CHR ''='')"
  "\<not> isDigitIn 10 (CHR ''>'')" "\<not> isDigitIn 10 (CHR ''<'')" "\<not> isDigitIn 10 (CHR ''='')"
  "lowerChar (CHR ''>'') = CHR ''>''" "lowerChar (CHR ''<'') = CHR ''<''" "lowerChar (CHR ''='') = CHR ''=''"
  by code_simp+

lemma nonDecimal_not_zero: "c \<noteq> CHR ''0'' \<Longrightarrow> nonDecimal (c # r) = None"
  by (simp add: nonDecimal_def split: list.splits)

lemma js_Number_operator_head:
  assumes "c = CHR ''>'' \<or> c = CHR ''<'' \<or> c = CHR ''=''"
  shows "js_Number (c # r) = NaN"
proof -
  have nws: "\<not> isWhiteSpace c" and nd: "\<not> isDigitIn 10 c"
    using assms operator_chars by auto
  obtain r' where t: "trim (c # r) = c # r'" using trim_Cons[OF nws] by blast
  have c: "c \<noteq> CHR ''0''" "c \<noteq> CHR ''.''" "c \<noteq> CHR ''I''" "c \<noteq> CHR ''+''" "c \<noteq> CHR ''-''"
    using assms by auto
  have "nonDecimal (c # r') = None" by (rule nonDecimal_not_zero[OF c(1)])
  moreover have "unsignedDecimal (c # r') = NaN"
    by (rule unsignedDecimal_no_digit[OF nd c(2,3)])
  ultimately show ?thesis using c t by (simp add: js_Number_def Let_def)
qed

lemma parsable_head:
  "parsable (c # r) \<Longrightarrow> c \<noteq> CHR ''>'' \<and> c \<noteq> CHR ''<'' \<and> c \<noteq> CHR ''=''"
  using js_Number_operator_head[of c r] by (auto simp: parsable_def isNaN_def)


lemma not_LT_eq [simp]: "\<not> isLineTerminator (CHR ''='')"
  by (simp add: isLineTerminator_def)

lemma rangeMatch_SomeD:
  assumes "rangeMatch q = Some (op, rest)"
  shows "op \<in> set rangeOps \<and> q = op @ rest \<and> rest \<noteq> [] \<and> \<not> list_ex isLineTerminator rest"
proof (cases q)
  case Nil
  then show ?thesis using assms by (simp add: rangeMatch_def)
next
  case (Cons c t)
  with assms have c: "c = CHR ''>'' \<or> c = CHR ''<''" and t: "t \<noteq> []" "\<not> list_ex isLineTerminator t"
    by (auto simp: rangeMatch_def split: if_splits)
  from t(1) obtain d r where dr: "t = d # r" by (cases t) auto
  show ?thesis
  proof (cases "d = CHR ''='' \<and> r \<noteq> []")
    case True
    then have "op = [c, d]" "rest = r" using assms Cons c t dr by (auto simp: rangeMatch_def)
    then show ?thesis using True c t dr Cons by (auto simp: rangeOps_def)
  next
    case False
    then have "op = [c]" "rest = t" using assms Cons c t dr by (auto simp: rangeMatch_def)
    then show ?thesis using c t Cons by (auto simp: rangeOps_def)
  qed
qed

lemma rangeMatch_unique:
  assumes "rangeMatch q = Some (op, rest)"
    and "op' \<in> set rangeOps" "q = op' @ rest'" "rest' \<noteq> []" "parsable rest'"
  shows "rest' = rest"
proof -
  from assms(3,2) obtain c t where q: "q = c # t" by (cases q) (auto simp: rangeOps_def)
  with assms(1) have c: "c = CHR ''>'' \<or> c = CHR ''<''" and t: "t \<noteq> []" "\<not> list_ex isLineTerminator t"
    by (auto simp: rangeMatch_def split: if_splits)
  from t(1) obtain d r where dr: "t = d # r" by (cases t) auto
  from assms(2,3) q consider "op' = [c]" "rest' = t" | "op' = [c, CHR ''='']" "t = CHR ''='' # rest'"
    by (auto simp: rangeOps_def)
  then show ?thesis
  proof cases
    case 1
    then have "d \<noteq> CHR ''=''" using assms(5) dr parsable_head[of d r] by auto
    then have "rest = t" using assms(1) q c t dr by (auto simp: rangeMatch_def)
    then show ?thesis using 1 by simp
  next
    case 2
    then have "d = CHR ''=''" "r = rest'" using dr by auto
    then have "rest = r" using assms(1,4) q c t dr by (auto simp: rangeMatch_def)
    then show ?thesis using \<open>r = rest'\<close> by simp
  qed
qed

lemma rangeMatch_NoneD:
  assumes "rangeMatch q = None" and "op \<in> set rangeOps" "q = op @ rest" "rest \<noteq> []"
  shows "list_ex isLineTerminator rest"
proof -
  from assms(2,3) obtain c t where q: "q = c # t" and c: "c = CHR ''>'' \<or> c = CHR ''<''"
    by (cases q) (auto simp: rangeOps_def)
  from assms(2,3,4) q consider "t = rest" | "t = CHR ''='' # rest"
    by (auto simp: rangeOps_def)
  then show ?thesis
  proof cases
    case 1
    then show ?thesis using assms(1,4) q c by (auto simp: rangeMatch_def split: list.splits if_splits)
  next
    case 2
    then show ?thesis using assms(1,4) q c by (auto simp: rangeMatch_def split: list.splits if_splits)
  qed
qed

lemma rangeMatch_Some_not_parsable:
  assumes "rangeMatch q = Some (op, rest)"
  shows "\<not> parsable q"
proof -
  from rangeMatch_SomeD[OF assms] obtain c t where "q = c # t" "c = CHR ''>'' \<or> c = CHR ''<''"
    by (cases q) (auto simp: rangeOps_def)
  then show ?thesis using parsable_head[of c t] by auto
qed

text \<open>
  Claim C9, as the code has it. On an index over a number field, \<^verbatim>\<open>find(q)\<close> raises
  an error exactly when \<^verbatim>\<open>Number\<close> converts neither \<open>q\<close> itself nor, for \<open>q\<close> made of
  one of \<^verbatim>\<open>>\<close>, \<^verbatim>\<open>>=\<close>, \<^verbatim>\<open><\<close>, \<^verbatim>\<open><=\<close> and a non-empty rest without line terminator,
  that rest. (\<^verbatim>\<open>Number\<close> converts the empty string and white space to 0.) On an
  index over a boolean field, \<^verbatim>\<open>find(q)\<close> raises an error exactly when \<open>q\<close> is
  neither \<^verbatim>\<open>true\<close> nor \<^verbatim>\<open>false\<close>.
\<close>

theorem Index_find_raises_iff:
  "(fieldType idx = TNumber \<longrightarrow>
      (isl (Index_find numText idx q) \<longleftrightarrow>
         \<not> parsable q \<and>
         \<not> (\<exists>op \<in> set rangeOps. \<exists>rest. q = op @ rest \<and> rest \<noteq> [] \<and>
               \<not> list_ex isLineTerminator rest \<and> parsable rest))) \<and>
   (fieldType idx = TBoolean \<longrightarrow>
      (isl (Index_find numText idx q) \<longleftrightarrow> q \<noteq> ''true'' \<and> q \<noteq> ''false''))"
proof (intro conjI impI)
  assume b: "fieldType idx = TBoolean"
  then show "isl (Index_find numText idx q) \<longleftrightarrow> q \<noteq> ''true'' \<and> q \<noteq> ''false''"
    by (simp add: Index_find_def)
next
  assume n: "fieldType idx = TNumber"
  let ?R = "\<exists>op \<in> set rangeOps. \<exists>rest. q = op @ rest \<and> rest \<noteq> [] \<and>
               \<not> list_ex isLineTerminator rest \<and> parsable rest"
  show "isl (Index_find numText idx q) \<longleftrightarrow> \<not> parsable q \<and> \<not> ?R"
  proof (cases "rangeMatch q")
    case None
    then have "\<not> ?R" using rangeMatch_NoneD by blast
    moreover have "isl (Index_find numText idx q) \<longleftrightarrow> \<not> parsable q"
      using n None by (simp add: Index_find_def Let_def parsable_def)
    ultimately show ?thesis by simp
  next
    case (Some m)
    obtain op rest where m: "m = (op, rest)" by (cases m)
    note sm = Some[unfolded m]
    have f: "isl (Index_find numText idx q) \<longleftrightarrow> \<not> parsable rest"
      using n sm by (simp add: Index_find_def Let_def parsable_def)
    have "?R \<longleftrightarrow> parsable rest"
    proof
      assume ?R
      then show "parsable rest" using rangeMatch_unique[OF sm] by blast
    next
      assume "parsable rest"
      then show ?R using rangeMatch_SomeD[OF sm] by blast
    qed
    then show ?thesis using f rangeMatch_Some_not_parsable[OF sm] by simp
  qed
qed


theorem Index_find_raises_iff_witness:
  "fieldType (new_Index ''age'' TNumber False) = TNumber \<and>
   \<not> isl (Index_find (\<lambda>q. []) (new_Index ''age'' TNumber False) ''>=5'') \<and>
   isl (Index_find (\<lambda>q. []) (new_Index ''age'' TNumber False) ''five'') \<and>
   fieldType (new_Index ''active'' TBoolean False) = TBoolean \<and>
   isl (Index_find (\<lambda>q. []) (new_Index ''active'' TBoolean False) ''yes'') \<and>
   \<not> isl (Index_find (\<lambda>q. []) (new_Index ''active'' TBoolean False) ''true'')"
proof -
  let ?n = "new_Index ''age'' TNumber False" and ?b = "new_Index ''active'' TBoolean False"
  have n: "fieldType ?n = TNumber" and b: "fieldType ?b = TBoolean"
    by (simp_all add: new_Index_def)
  have p: "parsable ''5''" "\<not> parsable ''five''" by code_simp+
  have R: "\<exists>op \<in> set rangeOps. \<exists>rest. ''>=5'' = op @ rest \<and> rest \<noteq> [] \<and>
             \<not> list_ex isLineTerminator rest \<and> parsable rest"
    by (rule bexI[where x = "''>=''"], rule exI[where x = "''5''"])
       (simp_all add: p rangeOps_def isLineTerminator_def)
  have nR: "\<not> (\<exists>op \<in> set rangeOps. \<exists>rest. ''five'' = op @ rest \<and> rest \<noteq> [] \<and>
             \<not> list_ex isLineTerminator rest \<and> parsable rest)"
    by (simp add: rangeOps_def)
  have 1: "\<not> isl (Index_find (\<lambda>q. []) ?n ''>=5'')"
    using Index_find_raises_iff[of ?n "\<lambda>q. []" "''>=5''"] n R by blast
  have 2: "isl (Index_find (\<lambda>q. []) ?n ''five'')"
    using Index_find_raises_iff[of ?n "\<lambda>q. []" "''five''"] n nR p(2) by blast
  have 3: "isl (Index_find (\<lambda>q. []) ?b ''yes'')"
    using Index_find_raises_iff[of ?b "\<lambda>q. []" "''yes''"] b by simp
  have 4: "\<not> isl (Index_find (\<lambda>q. []) ?b ''true'')"
    using Index_find_raises_iff[of ?b "\<lambda>q. []" "''true''"] b by simp
  show ?thesis using n b 1 2 3 4 by blast
qed

text \<open>
  A lone operator is an operator followed by the empty string, which \<^verbatim>\<open>Number\<close>
  converts to 0, and the query raises; the empty query raises nothing and is the exact
  query for 0. So the errors are not exactly the queries that are no numeric literal,
  whether or not the empty string counts as one.
\<close>

theorem Index_find_lone_operator_counterexample:
  "Index_find (\<lambda>q. []) (new_Index ''age'' TNumber False) ''>'' = Inl (InvalidNumberFieldQuery ''>'') \<and>
   ''>'' \<in> set rangeOps \<and> ''>'' = ''>'' @ '''' \<and> js_Number '''' = Fin 0 \<and>
   Index_find (\<lambda>q. []) (new_Index ''age'' TNumber False) '''' =
     Inr (exactQuery (new_Index ''age'' TNumber False) (Num (Fin 0)))"
proof -
  have a: "js_Number '''' = Fin 0" "js_Number ''>'' = NaN" by code_simp+
  have r: "rangeMatch ''>'' = None" "rangeMatch '''' = None" by (simp_all add: rangeMatch_def)
  show ?thesis
    by (simp add: Index_find_def new_Index_def a r isNaN_def rangeOps_def)
qed

section \<open>Range queries\<close>

lemma rangeMatch_gt:
  assumes "c = CHR ''>'' \<or> c = CHR ''<''" "parsable lit" "lit \<noteq> []" "\<not> list_ex isLineTerminator lit"
  shows "rangeMatch (c # lit) = Some ([c], lit)"
    and "rangeMatch (c # CHR ''='' # lit) = Some ([c, CHR ''=''], lit)"
proof -
  from assms(3) obtain d r where l: "lit = d # r" by (cases lit) auto
  then have "d \<noteq> CHR ''=''" using parsable_head[of d r] assms(2) by auto
  then show "rangeMatch (c # lit) = Some ([c], lit)"
    using assms l by (auto simp: rangeMatch_def)
  show "rangeMatch (c # CHR ''='' # lit) = Some ([c, CHR ''=''], lit)"
    using assms by (auto simp: rangeMatch_def)
qed

lemma takeWhile_equal_run:
  assumes "sorted_entries xs" "typed_entries t xs" "hasType t v"
    and "\<And>x. x \<in> set xs \<Longrightarrow> \<not> js_lt (evalue x) v"
  shows "takeWhile (\<lambda>e. strict_eq (evalue e) v) xs = filter (\<lambda>e. evalue e = v) xs"
  using assms
proof (induction xs)
  case Nil
  then show ?case by simp
next
  case (Cons x xs)
  have tx: "hasType t (evalue x)" and txs: "typed_entries t xs"
    using Cons.prems(2) by (simp_all add: typed_entries_def)
  have sxs: "sorted_entries xs" using Cons.prems(1) by (simp add: sorted_entries_def)
  have IH: "takeWhile (\<lambda>e. strict_eq (evalue e) v) xs = filter (\<lambda>e. evalue e = v) xs"
    using Cons.IH[OF sxs txs Cons.prems(3)] Cons.prems(4) by simp
  show ?case
  proof (cases "evalue x = v")
    case True
    then show ?thesis using IH strict_eq_typed[OF tx] by simp
  next
    case False
    then have xv: "js_lt v (evalue x)"
      using js_lt_total[OF tx Cons.prems(3)] Cons.prems(4)[of x] by auto
    have "evalue y \<noteq> v" if "y \<in> set xs" for y
    proof
      assume "evalue y = v"
      moreover have "\<not> js_lt (evalue y) (evalue x)"
        using Cons.prems(1) that by (simp add: sorted_entries_def)
      ultimately show False using xv by simp
    qed
    then have "filter (\<lambda>e. evalue e = v) xs = []" by (simp add: filter_empty_conv)
    then show ?thesis using False strict_eq_typed[OF tx] by simp
  qed
qed

lemma rangeQuery_sorted:
  assumes "sorted_entries (entries idx)" "typed_entries TNumber (entries idx)" "\<not> isNaN b"
  shows "rangeQuery idx ''>'' b = map eid (filter (\<lambda>e. js_lt (Num b) (evalue e)) (entries idx))"
    and "rangeQuery idx ''>='' b =
           map eid (filter (\<lambda>e. js_lt (Num b) (evalue e) \<or> evalue e = Num b) (entries idx))"
    and "rangeQuery idx ''<'' b = map eid (filter (\<lambda>e. js_lt (evalue e) (Num b)) (entries idx))"
    and "rangeQuery idx ''<='' b =
           map eid (filter (\<lambda>e. js_lt (evalue e) (Num b) \<or> evalue e = Num b) (entries idx))"
proof -
  let ?es = "entries idx"
  have tb: "hasType TNumber (Num b)" using assms(3) by (simp add: hasType_def)
  have te: "\<And>e. e \<in> set ?es \<Longrightarrow> hasType TNumber (evalue e)"
    using assms(2) by (simp add: typed_entries_def list_all_iff)
  note lb = lowerBound_sorted[OF assms(1,2) tb]
  have gt: "(\<not> js_lt (evalue e) (Num b) \<and> \<not> strict_eq (evalue e) (Num b)) = js_lt (Num b) (evalue e)"
    if "e \<in> set ?es" for e
    using js_lt_total[OF te[OF that] tb] js_lt_asym[OF te[OF that] tb] js_lt_irrefl[OF tb]
      strict_eq_typed[OF te[OF that]] by auto
  have ge: "(\<not> js_lt (evalue e) (Num b)) = (js_lt (Num b) (evalue e) \<or> evalue e = Num b)"
    if "e \<in> set ?es" for e
    using js_lt_total[OF te[OF that] tb] js_lt_asym[OF te[OF that] tb] js_lt_irrefl[OF tb] by auto
  show "rangeQuery idx ''>'' b = map eid (filter (\<lambda>e. js_lt (Num b) (evalue e)) ?es)"
    using gt by (auto simp: rangeQuery_def lb intro!: arg_cong[where f = "map eid"] filter_cong)
  show "rangeQuery idx ''>='' b =
           map eid (filter (\<lambda>e. js_lt (Num b) (evalue e) \<or> evalue e = Num b) ?es)"
    using ge by (auto simp: rangeQuery_def lb intro!: arg_cong[where f = "map eid"] filter_cong)
  show "rangeQuery idx ''<'' b = map eid (filter (\<lambda>e. js_lt (evalue e) (Num b)) ?es)"
    by (simp add: rangeQuery_def lb)
  have run: "takeWhile (\<lambda>e. strict_eq (evalue e) (Num b)) (filter (\<lambda>e. \<not> js_lt (evalue e) (Num b)) ?es)
        = filter (\<lambda>e. evalue e = Num b) (filter (\<lambda>e. \<not> js_lt (evalue e) (Num b)) ?es)"
  proof (rule takeWhile_equal_run[OF _ _ tb])
    show "sorted_entries (filter (\<lambda>e. \<not> js_lt (evalue e) (Num b)) ?es)"
      using assms(1) by (simp add: sorted_entries_def sorted_wrt_filter)
    show "typed_entries TNumber (filter (\<lambda>e. \<not> js_lt (evalue e) (Num b)) ?es)"
      using assms(2) by (simp add: typed_entries_def list_all_iff)
  qed simp
  have split: "?es = filter (\<lambda>e. js_lt (evalue e) (Num b)) ?es @ filter (\<lambda>e. \<not> js_lt (evalue e) (Num b)) ?es"
    using lb append_take_drop_id[of "lowerBound idx (Num b)" ?es] by simp
  have "filter (\<lambda>e. js_lt (evalue e) (Num b) \<or> evalue e = Num b) ?es =
        filter (\<lambda>e. js_lt (evalue e) (Num b) \<or> evalue e = Num b) (filter (\<lambda>e. js_lt (evalue e) (Num b)) ?es) @
        filter (\<lambda>e. js_lt (evalue e) (Num b) \<or> evalue e = Num b) (filter (\<lambda>e. \<not> js_lt (evalue e) (Num b)) ?es)"
    by (subst split) (simp only: filter_append)
  also have "\<dots> = filter (\<lambda>e. js_lt (evalue e) (Num b)) ?es @
        filter (\<lambda>e. evalue e = Num b) (filter (\<lambda>e. \<not> js_lt (evalue e) (Num b)) ?es)"
  proof -
    have a: "(\<lambda>x. js_lt (evalue x) (Num b) \<and> (js_lt (evalue x) (Num b) \<or> evalue x = Num b))
            = (\<lambda>e. js_lt (evalue e) (Num b))" by (rule ext) blast
    have c: "(\<lambda>x. \<not> js_lt (evalue x) (Num b) \<and> (js_lt (evalue x) (Num b) \<or> evalue x = Num b))
            = (\<lambda>x. \<not> js_lt (evalue x) (Num b) \<and> evalue x = Num b)" by (rule ext) blast
    show ?thesis by (simp add: a c)
  qed
  finally show "rangeQuery idx ''<='' b =
           map eid (filter (\<lambda>e. js_lt (evalue e) (Num b) \<or> evalue e = Num b) ?es)"
    by (simp add: rangeQuery_def lb run)
qed


text \<open>
  Claim C5. Take an index over a number field whose entries hold numbers in sorted
  order, and a bound \<open>b\<close> given by its text \<open>lit\<close>: a non-empty string without line
  terminator that \<^verbatim>\<open>Number\<close> converts to \<open>b\<close> (the text \<^verbatim>\<open>'>' + b\<close> appends to the
  operator is such a string). Then \<^verbatim>\<open>find('>' + lit)\<close> returns the identifiers of
  exactly the entries of value greater than \<open>b\<close>, \<^verbatim>\<open>find('>=' + lit)\<close> of those greater
  than or equal to \<open>b\<close>, \<^verbatim>\<open>find('<' + lit)\<close> of those less than \<open>b\<close> and
  \<^verbatim>\<open>find('<=' + lit)\<close> of those less than or equal to \<open>b\<close>, each in the order of
  the entries.
\<close>

theorem Index_find_range:
  assumes "fieldType idx = TNumber"
    and "sorted_entries (entries idx)" "typed_entries TNumber (entries idx)"
    and "js_Number lit = b" "\<not> isNaN b" "lit \<noteq> []" "\<not> list_ex isLineTerminator lit"
  shows "Index_find numText idx (''>'' @ lit) =
           Inr (map eid (filter (\<lambda>e. js_lt (Num b) (evalue e)) (entries idx))) \<and>
         Index_find numText idx (''>='' @ lit) =
           Inr (map eid (filter (\<lambda>e. js_lt (Num b) (evalue e) \<or> evalue e = Num b) (entries idx))) \<and>
         Index_find numText idx (''<'' @ lit) =
           Inr (map eid (filter (\<lambda>e. js_lt (evalue e) (Num b)) (entries idx))) \<and>
         Index_find numText idx (''<='' @ lit) =
           Inr (map eid (filter (\<lambda>e. js_lt (evalue e) (Num b) \<or> evalue e = Num b) (entries idx)))"
proof -
  have p: "parsable lit" using assms(4,5) by (simp add: parsable_def)
  note m1 = rangeMatch_gt[OF _ p assms(6,7), of "CHR ''>''"]
  note m2 = rangeMatch_gt[OF _ p assms(6,7), of "CHR ''<''"]
  note rq = rangeQuery_sorted[OF assms(2,3,5)]
  show ?thesis
    using assms(1,4,5) by (simp add: Index_find_def m1 m2 rq Let_def)
qed

theorem Index_find_range_witness:
  "fieldType (run_ops (new_Index ''age'' TNumber False)
      [OpAdd ''1'' (Num (Fin 30)), OpAdd ''2'' (Num (Fin 10)), OpAdd ''3'' (Num (Fin 20)), OpAdd ''4'' (Num (Fin 20))]) = TNumber \<and>
   js_Number ''20'' = Fin 20 \<and>
   Index_find (\<lambda>q. []) (run_ops (new_Index ''age'' TNumber False)
      [OpAdd ''1'' (Num (Fin 30)), OpAdd ''2'' (Num (Fin 10)), OpAdd ''3'' (Num (Fin 20)), OpAdd ''4'' (Num (Fin 20))]) ''>20''
     = Inr [''1''] \<and>
   Index_find (\<lambda>q. []) (run_ops (new_Index ''age'' TNumber False)
      [OpAdd ''1'' (Num (Fin 30)), OpAdd ''2'' (Num (Fin 10)), OpAdd ''3'' (Num (Fin 20)), OpAdd ''4'' (Num (Fin 20))]) ''>=20''
     = Inr [''4'', ''3'', ''1''] \<and>
   Index_find (\<lambda>q. []) (run_ops (new_Index ''age'' TNumber False)
      [OpAdd ''1'' (Num (Fin 30)), OpAdd ''2'' (Num (Fin 10)), OpAdd ''3'' (Num (Fin 20)), OpAdd ''4'' (Num (Fin 20))]) ''<20''
     = Inr [''2''] \<and>
   Index_find (\<lambda>q. []) (run_ops (new_Index ''age'' TNumber False)
      [OpAdd ''1'' (Num (Fin 30)), OpAdd ''2'' (Num (Fin 10)), OpAdd ''3'' (Num (Fin 20)), OpAdd ''4'' (Num (Fin 20))]) ''<=20''
     = Inr [''2'', ''4'', ''3'']"
proof -
  define idx where "idx = run_ops (new_Index ''age'' TNumber False)
      [OpAdd ''1'' (Num (Fin 30)), OpAdd ''2'' (Num (Fin 10)), OpAdd ''3'' (Num (Fin 20)), OpAdd ''4'' (Num (Fin 20))]"
  have e: "idx = \<lparr>field = ''age'', fieldType = TNumber, ignoreCase = False,
       entries = [\<lparr>evalue = Num (Fin 10), eid = ''2''\<rparr>, \<lparr>evalue = Num (Fin 20), eid = ''4''\<rparr>,
                  \<lparr>evalue = Num (Fin 20), eid = ''3''\<rparr>, \<lparr>evalue = Num (Fin 30), eid = ''1''\<rparr>]\<rparr>"
    unfolding idx_def by code_simp
  have h1: "fieldType idx = TNumber" by (simp add: e)
  have h2: "sorted_entries (entries idx)" by (simp add: e sorted_entries_def)
  have h3: "typed_entries TNumber (entries idx)" by (simp add: e typed_entries_def hasType_def isNaN_def)
  have h4: "js_Number ''20'' = Fin 20" by code_simp
  have h5: "\<not> isNaN (Fin 20)" by (simp add: isNaN_def)
  have h6: "''20'' \<noteq> []" by simp
  have h7: "\<not> list_ex isLineTerminator ''20''" by (simp add: isLineTerminator_def)
  show ?thesis
    using Index_find_range[OF h1 h2 h3 h4 h5 h6 h7, of "\<lambda>q. []"] h1 h4
    unfolding idx_def[symmetric] by (simp add: e)
qed

section \<open>Collection: a failed call changes nothing\<close>

lemma validateAll_error_iff:
  "isl (validateAll c ids k rs) \<longleftrightarrow>
     (\<exists>r \<in> set rs. validateRecord (applyDefaults c r) (schema c) False \<noteq> None)"
proof (induction rs arbitrary: k)
  case Nil
  then show ?case by simp
next
  case (Cons r rs)
  show ?case
  proof (cases "validateRecord (applyDefaults c r) (schema c) False")
    case (Some e)
    then show ?thesis by (simp add: Let_def)
  next
    case None
    have "isl (validateAll c ids k (r # rs)) = isl (validateAll c ids (Suc k) rs)"
      using None by (simp add: Let_def split: sum.splits)
    then show ?thesis using Cons.IH[of "Suc k"] None by simp
  qed
qed

text \<open>
  Claim C7. When \<^verbatim>\<open>add\<close>, \<^verbatim>\<open>addMany\<close>, \<^verbatim>\<open>update\<close> or \<^verbatim>\<open>remove\<close> fails (the errors they
  raise are those of the validation of a record and the one for an unknown
  identifier), the collection and the storage, with its count of write calls, are as
  they were before the call. \<^verbatim>\<open>addMany\<close> fails as soon as one record of the batch
  does not pass the validation, so before any record is stored or indexed.
\<close>

theorem failed_call_changes_nothing:
  "(isl (fst (add c st i r)) \<longrightarrow> snd (add c st i r) = (c, st)) \<and>
   (isl (fst (addMany c st ids rs)) \<longrightarrow> snd (addMany c st ids rs) = (c, st)) \<and>
   (isl (fst (update c st j p)) \<longrightarrow> snd (update c st j p) = (c, st)) \<and>
   (isl (fst (remove c st k)) \<longrightarrow> snd (remove c st k) = (c, st)) \<and>
   (isl (fst (addMany c st ids rs)) \<longleftrightarrow>
      (\<exists>r \<in> set rs. validateRecord (applyDefaults c r) (schema c) False \<noteq> None))"
proof (intro conjI impI)
  show "snd (add c st i r) = (c, st)" if "isl (fst (add c st i r))"
    using that by (auto simp: add_def Let_def split: option.splits if_splits)
  show "snd (addMany c st ids rs) = (c, st)" if "isl (fst (addMany c st ids rs))"
    using that by (auto simp: addMany_def Let_def split: sum.splits if_splits)
  show "snd (update c st j p) = (c, st)" if "isl (fst (update c st j p))"
    using that by (auto simp: update_def Let_def split: option.splits if_splits)
  show "snd (remove c st k) = (c, st)" if "isl (fst (remove c st k))"
    using that by (auto simp: remove_def Let_def split: option.splits if_splits)
  show "isl (fst (addMany c st ids rs)) \<longleftrightarrow>
      (\<exists>r \<in> set rs. validateRecord (applyDefaults c r) (schema c) False \<noteq> None)"
    using validateAll_error_iff[of c ids 0 rs]
    by (auto simp: addMany_def Let_def split: sum.splits if_splits)
qed


theorem failed_call_changes_nothing_witness:
  "isl (fst (add (fst (two_users MemoryAdapter)) (snd (two_users MemoryAdapter)) ''3'' [(''name'', Str ''Ann'')])) \<and>
   snd (add (fst (two_users MemoryAdapter)) (snd (two_users MemoryAdapter)) ''3'' [(''name'', Str ''Ann'')])
     = two_users MemoryAdapter \<and>
   isl (fst (addMany (fst (two_users MemoryAdapter)) (snd (two_users MemoryAdapter)) (\<lambda>k. natText (k + 3))
          [josef, [(''name'', Num (Fin 1))]])) \<and>
   snd (addMany (fst (two_users MemoryAdapter)) (snd (two_users MemoryAdapter)) (\<lambda>k. natText (k + 3))
          [josef, [(''name'', Num (Fin 1))]])
     = two_users MemoryAdapter \<and>
   isl (fst (update (fst (two_users MemoryAdapter)) (snd (two_users MemoryAdapter)) ''9'' [(''age'', Num (Fin 31))])) \<and>
   snd (update (fst (two_users MemoryAdapter)) (snd (two_users MemoryAdapter)) ''9'' [(''age'', Num (Fin 31))])
     = two_users MemoryAdapter \<and>
   isl (fst (remove (fst (two_users MemoryAdapter)) (snd (two_users MemoryAdapter)) ''9'')) \<and>
   snd (remove (fst (two_users MemoryAdapter)) (snd (two_users MemoryAdapter)) ''9'')
     = two_users MemoryAdapter"
proof -
  let ?c = "fst (two_users MemoryAdapter)" and ?st = "snd (two_users MemoryAdapter)"
  let ?ids = "\<lambda>k. natText (k + 3)"
  have a: "isl (fst (add ?c ?st ''3'' [(''name'', Str ''Ann'')]))" by code_simp
  have m: "isl (fst (addMany ?c ?st ?ids [josef, [(''name'', Num (Fin 1))]]))" by code_simp
  have u: "isl (fst (update ?c ?st ''9'' [(''age'', Num (Fin 31))]))" by code_simp
  have r: "isl (fst (remove ?c ?st ''9''))" by code_simp
  note t = failed_call_changes_nothing[where c = ?c and st = ?st and i = "''3''"
      and r = "[(''name'', Str ''Ann'')]" and ids = ?ids and rs = "[josef, [(''name'', Num (Fin 1))]]"
      and j = "''9''" and p = "[(''age'', Num (Fin 31))]" and k = "''9''"]
  show ?thesis using t a m u r by simp
qed

section \<open>Collection: find\<close>

lemma set_uniq [simp]: "set (uniq xs) = set xs"
  by (simp add: uniq_def)

lemma answeredD:
  assumes "answered numText idxs p"
  shows "\<exists>idx found. map_of idxs (fst p) = Some idx \<and> Index_find numText idx (snd p) = Inr found \<and>
    projr (answer numText idxs p) = found"
proof (cases "map_of idxs (fst p)")
  case None
  then show ?thesis using assms by (simp add: answered_def answer_def)
next
  case (Some idx)
  then show ?thesis using assms
    by (cases "Index_find numText idx (snd p)") (simp_all add: answered_def answer_def)
qed

lemma find_loop_Some:
  assumes "list_all (answered numText idxs) qs" "r \<noteq> []"
  shows "find_loop numText idxs qs (Some r) = Inr (filter (inAll numText idxs qs) r)"
  using assms
proof (induction qs arbitrary: r)
  case Nil
  then show ?case by (simp add: inAll_def)
next
  case (Cons p qs)
  from Cons.prems(1) have ap: "answered numText idxs p" and aqs: "list_all (answered numText idxs) qs"
    by simp_all
  from ap obtain idx found where f: "map_of idxs (fst p) = Some idx"
    "Index_find numText idx (snd p) = Inr found" "projr (answer numText idxs p) = found"
    using answeredD by blast
  let ?r' = "filter (\<lambda>i. i \<in> set found) r"
  have split: "filter (inAll numText idxs (p # qs)) r = filter (inAll numText idxs qs) ?r'"
    using f(3) by (auto simp: inAll_def intro: filter_cong)
  show ?case
  proof (cases "?r' = []")
    case True
    then show ?thesis using f split by (simp add: Let_def)
  next
    case False
    then show ?thesis using f split Cons.IH[OF aqs False] by (simp add: Let_def)
  qed
qed

lemma find_loop_None:
  assumes "list_all (answered numText idxs) qs" "qs \<noteq> []"
  shows "find_loop numText idxs qs None = Inr (common numText idxs qs)"
proof -
  from assms(2) obtain p rest where q: "qs = p # rest" by (cases qs) auto
  with assms(1) have ap: "answered numText idxs p" and ar: "list_all (answered numText idxs) rest"
    by simp_all
  from ap obtain idx found where f: "map_of idxs (fst p) = Some idx"
    "Index_find numText idx (snd p) = Inr found" "projr (answer numText idxs p) = found"
    using answeredD by blast
  show ?thesis
  proof (cases "uniq found = []")
    case True
    then show ?thesis using q f by (simp add: Let_def common_def)
  next
    case False
    then show ?thesis using q f find_loop_Some[OF ar False] by (simp add: Let_def common_def)
  qed
qed

lemma find_loop_error_Some:
  assumes "list_all (answered numText idxs) pre" "filter (inAll numText idxs pre) r \<noteq> []"
    and "answer numText idxs e = Inl err"
  shows "find_loop numText idxs (pre @ e # post) (Some r) = Inl err"
  using assms(1,2)
proof (induction pre arbitrary: r)
  case Nil
  then show ?case using assms(3)
    by (auto simp: answer_def split: option.splits sum.splits)
next
  case (Cons p pre)
  from Cons.prems(1) have ap: "answered numText idxs p" and apre: "list_all (answered numText idxs) pre"
    by simp_all
  from ap obtain idx found where f: "map_of idxs (fst p) = Some idx"
    "Index_find numText idx (snd p) = Inr found" "projr (answer numText idxs p) = found"
    using answeredD by blast
  let ?r' = "filter (\<lambda>i. i \<in> set found) r"
  have split: "filter (inAll numText idxs (p # pre)) r = filter (inAll numText idxs pre) ?r'"
    using f(3) by (auto simp: inAll_def intro: filter_cong)
  then have ne: "filter (inAll numText idxs pre) ?r' \<noteq> []" using Cons.prems(2) by simp
  then have "?r' \<noteq> []" by (metis filter.simps(1))
  then show ?case using f Cons.IH[OF apre ne] by (simp add: Let_def)
qed

lemma find_loop_error_None:
  assumes "list_all (answered numText idxs) pre" "pre = [] \<or> common numText idxs pre \<noteq> []"
    and "answer numText idxs e = Inl err"
  shows "find_loop numText idxs (pre @ e # post) None = Inl err"
proof (cases pre)
  case Nil
  then show ?thesis using assms(3) by (auto simp: answer_def split: option.splits sum.splits)
next
  case (Cons p rest)
  with assms(1) have ap: "answered numText idxs p" and ar: "list_all (answered numText idxs) rest"
    by simp_all
  from ap obtain idx found where f: "map_of idxs (fst p) = Some idx"
    "Index_find numText idx (snd p) = Inr found" "projr (answer numText idxs p) = found"
    using answeredD by blast
  have ne: "filter (inAll numText idxs rest) (uniq found) \<noteq> []"
    using assms(2) Cons f(3) by (simp add: common_def)
  then have "uniq found \<noteq> []" by (metis filter.simps(1))
  then show ?thesis using Cons f find_loop_error_Some[OF ar ne assms(3)] by (simp add: Let_def)
qed

lemma find_loop_short_Some:
  assumes "list_all (answered numText idxs) pre" "r \<noteq> []" "filter (inAll numText idxs pre) r = []"
  shows "find_loop numText idxs (pre @ post) (Some r) = Inr []"
  using assms
proof (induction pre arbitrary: r)
  case Nil
  then show ?case by (simp add: inAll_def)
next
  case (Cons p pre)
  from Cons.prems(1) have ap: "answered numText idxs p" and apre: "list_all (answered numText idxs) pre"
    by simp_all
  from ap obtain idx found where f: "map_of idxs (fst p) = Some idx"
    "Index_find numText idx (snd p) = Inr found" "projr (answer numText idxs p) = found"
    using answeredD by blast
  let ?r' = "filter (\<lambda>i. i \<in> set found) r"
  have split: "filter (inAll numText idxs (p # pre)) r = filter (inAll numText idxs pre) ?r'"
    using f(3) by (auto simp: inAll_def intro: filter_cong)
  show ?case
  proof (cases "?r' = []")
    case True
    then show ?thesis using f by (simp add: Let_def)
  next
    case False
    have "filter (inAll numText idxs pre) ?r' = []" using split Cons.prems(3) by simp
    from Cons.IH[OF apre False this] show ?thesis using f False by (simp add: Let_def)
  qed
qed

lemma find_loop_short_None:
  assumes "list_all (answered numText idxs) pre" "pre \<noteq> []" "common numText idxs pre = []"
  shows "find_loop numText idxs (pre @ post) None = Inr []"
proof -
  from assms(2) obtain p rest where q: "pre = p # rest" by (cases pre) auto
  with assms(1) have ap: "answered numText idxs p" and ar: "list_all (answered numText idxs) rest"
    by simp_all
  from ap obtain idx found where f: "map_of idxs (fst p) = Some idx"
    "Index_find numText idx (snd p) = Inr found" "projr (answer numText idxs p) = found"
    using answeredD by blast
  have e: "filter (inAll numText idxs rest) (uniq found) = []"
    using assms(3) q f(3) by (simp add: common_def)
  show ?thesis
  proof (cases "uniq found = []")
    case True
    then show ?thesis using q f by (simp add: Let_def)
  next
    case False
    then show ?thesis using q f find_loop_short_Some[OF ar False e] by (simp add: Let_def)
  qed
qed

lemma find_materialise:
  assumes "query \<noteq> []"
  shows "find numText c st query =
    (case find_loop numText (activeIndexes c st) query None of
       Inl e \<Rightarrow> Inl e | Inr ids \<Rightarrow> Inr (map (foundDocument c st) ids))"
  using assms by (auto simp: find_def activeIndexes_def foundDocument_def Let_def split: sum.splits)

text \<open>
  How \<^verbatim>\<open>find\<close> proceeds. An empty query gives the documents of \<^verbatim>\<open>all()\<close>. A query
  whose every field has an index that answers its pattern gives exactly the
  documents of the identifiers that lie in the result set of every field. The
  fields are taken in order: a field without index, or a pattern its index rejects,
  raises its error when the fields before it are answered and, if there are any,
  have an identifier in common; once the fields so far are answered and have no
  identifier in common, the loop returns before it looks at the fields after them.
\<close>

lemma find_in_order:
  "find numText c st [] = Inr (map Some (all c st)) \<and>
   (query \<noteq> [] \<and> list_all (answered numText (activeIndexes c st)) query \<longrightarrow>
      find numText c st query =
        Inr (map (foundDocument c st) (common numText (activeIndexes c st) query))) \<and>
   (list_all (answered numText (activeIndexes c st)) pre \<and>
    (pre = [] \<or> common numText (activeIndexes c st) pre \<noteq> []) \<and>
    answer numText (activeIndexes c st) e = Inl err \<longrightarrow>
      find numText c st (pre @ e # post) = Inl err) \<and>
   (map_of (activeIndexes c st) f = None \<longrightarrow>
      answer numText (activeIndexes c st) (f, pat) = Inl (FieldNotIndexed f)) \<and>
   (pre \<noteq> [] \<and> list_all (answered numText (activeIndexes c st)) pre \<and>
    common numText (activeIndexes c st) pre = [] \<longrightarrow>
      find numText c st (pre @ post) = Inr [])"
proof (intro conjI impI)
  show "find numText c st [] = Inr (map Some (all c st))" by (simp add: find_def)
  show "find numText c st query =
        Inr (map (foundDocument c st) (common numText (activeIndexes c st) query))"
    if "query \<noteq> [] \<and> list_all (answered numText (activeIndexes c st)) query"
    using that find_loop_None[of numText "activeIndexes c st" query]
    by (simp add: find_materialise)
  show "find numText c st (pre @ e # post) = Inl err"
    if "list_all (answered numText (activeIndexes c st)) pre \<and>
        (pre = [] \<or> common numText (activeIndexes c st) pre \<noteq> []) \<and>
        answer numText (activeIndexes c st) e = Inl err"
    using that find_loop_error_None[of numText "activeIndexes c st" pre e err post]
    by (simp add: find_materialise)
  show "answer numText (activeIndexes c st) (f, pat) = Inl (FieldNotIndexed f)"
    if "map_of (activeIndexes c st) f = None"
    using that by (simp add: answer_def)
  show "find numText c st (pre @ post) = Inr []"
    if "pre \<noteq> [] \<and> list_all (answered numText (activeIndexes c st)) pre \<and>
        common numText (activeIndexes c st) pre = []"
    using that find_loop_short_None[of numText "activeIndexes c st" pre post]
    by (simp add: find_materialise)
qed

text \<open>
  Claim C6, at a query that names a field without index after a field nobody
  matches. The field \<^verbatim>\<open>sex\<close> of the users has no index. The query for the name
  \<^verbatim>\<open>zzz\<close> and the sex \<^verbatim>\<open>male\<close> returns an empty result and raises nothing, where a
  queried field that is not indexed is to raise an error: the loop returns on the
  empty intersection before it looks up the index of \<^verbatim>\<open>sex\<close>. The same two fields in
  the other order raise the error, and so does the query whose name is a stored one.
\<close>

theorem find_skips_unindexed_field:
  "map_of (activeIndexes (fst (two_users MemoryAdapter)) (snd (two_users MemoryAdapter))) ''sex'' = None \<and>
   find (\<lambda>q. []) (fst (two_users MemoryAdapter)) (snd (two_users MemoryAdapter))
      [(''name'', ''zzz''), (''sex'', ''male'')] = Inr [] \<and>
   find (\<lambda>q. []) (fst (two_users MemoryAdapter)) (snd (two_users MemoryAdapter))
      [(''sex'', ''male''), (''name'', ''zzz'')] = Inl (FieldNotIndexed ''sex'') \<and>
   find (\<lambda>q. []) (fst (two_users MemoryAdapter)) (snd (two_users MemoryAdapter))
      [(''name'', ''josef''), (''sex'', ''male'')] = Inl (FieldNotIndexed ''sex'') \<and>
   find (\<lambda>q. []) (fst (two_users MemoryAdapter)) (snd (two_users MemoryAdapter))
      [(''sex'', ''male'')] = Inl (FieldNotIndexed ''sex'') \<and>
   find (\<lambda>q. []) (fst (two_users FileAdapter)) (snd (two_users FileAdapter))
      [(''name'', ''zzz''), (''sex'', ''male'')] = Inr []"
  by code_simp

section \<open>The JSON round trip\<close>

lemma json_val_Undefined [simp]: "(json_val v = Undefined) = (v = Undefined)"
  by (cases v) (auto split: jsnum.splits)

lemma json_val_idem [simp]: "json_val (json_val v) = json_val v"
proof (induction v)
  case (Obj ps)
  have "json_val (snd p) \<noteq> Undefined" if "p \<in> set ps" "snd p \<noteq> Undefined" for p
    using that by simp
  moreover have "json_val (json_val (snd p)) = json_val (snd p)" if "p \<in> set ps" for p
    using Obj.IH[of p "snd p"] that by (cases p) auto
  ultimately show ?case
    by (auto simp: filter_map o_def filter_id_conv intro!: map_cong filter_cong)
qed (auto split: jsnum.splits)

lemma json_obj_idem [simp]: "json_obj (json_obj r) = json_obj r"
  using json_val_idem[of "Obj r"] by (simp add: json_obj_def)


lemma json_data_idem [simp]: "json_data (json_data d) = json_data d"
  by (simp add: json_data_def o_def)

lemma json_entries_idem [simp]: "json_entries (json_entries es) = json_entries es"
  by (simp add: json_entries_def o_def)

lemma json_schema_idem [simp]: "json_schema (json_schema s) = json_schema s"
  by (simp add: json_schema_def o_def)

lemma json_meta_idem [simp]: "json_meta (json_meta m) = json_meta m"
  by (cases "meta_indexes m") (simp_all add: json_meta_def o_def)

lemma json_schema_keys [simp]: "map fst (json_schema s) = map fst s"
  by (simp add: json_schema_def o_def)

lemma map_of_json_schema:
  "map_of (json_schema s) f = map_option (\<lambda>d. d\<lparr>fdefault := json_val (fdefault d)\<rparr>) (map_of s f)"
  by (induction s) (auto simp: json_schema_def)

section \<open>Storage: reading after writing\<close>

lemma map_of_setprop: "map_of (setprop k v ps) k' = (if k' = k then Some v else map_of ps k')"
  by (induction ps) auto

lemma Storage_read_write_simps [simp]:
  "adapter (Storage_writeData st n d) = adapter st"
  "adapter (Storage_writeMeta st n m) = adapter st"
  "Storage_readMeta (Storage_writeData st n d) n' = Storage_readMeta st n'"
  "Storage_readData (Storage_writeMeta st n m) n' = Storage_readData st n'"
  "writeDataCalls (Storage_writeData st n d) = Suc (writeDataCalls st)"
  "writeMetaCalls (Storage_writeData st n d) = writeMetaCalls st"
  "writeDataCalls (Storage_writeMeta st n m) = writeDataCalls st"
  "writeMetaCalls (Storage_writeMeta st n m) = Suc (writeMetaCalls st)"
  by (cases "adapter st";
      simp add: Storage_writeData_def Storage_writeMeta_def Storage_readMeta_def Storage_readData_def)+

lemma Storage_readData_written:
  "adapter st = FileAdapter \<Longrightarrow>
   Storage_readData (Storage_writeData st n d) n' =
     (if n' = n then Some (json_data d) else Storage_readData st n')"
  by (simp add: Storage_writeData_def Storage_readData_def map_of_setprop)

lemma Storage_readMeta_written:
  "adapter st = FileAdapter \<Longrightarrow>
   Storage_readMeta (Storage_writeMeta st n m) n' =
     (if n' = n then Some (json_meta m) else Storage_readMeta st n')"
  by (simp add: Storage_writeMeta_def Storage_readMeta_def map_of_setprop)

section \<open>Collection: the schema check of the constructor\<close>

lemma schemasMatch_loop_iff:
  assumes "length ks = length ks'"
  shows "schemasMatch_loop a b ks ks' \<longleftrightarrow> ks = ks' \<and> list_all (roundPasses a b) ks"
  using assms
proof (induction ks ks' rule: list_induct2)
  case Nil
  then show ?case by simp
next
  case (Cons k ks k' ks')
  then show ?case
    by (auto simp: roundPasses_def split: option.splits)
qed

lemma sort_eq_iff_mset: "sort xs = sort ys \<longleftrightarrow> mset xs = mset ys"
proof
  assume "sort xs = sort ys"
  then have "mset (sort xs) = mset (sort ys)" by simp
  then show "mset xs = mset ys" by simp
next
  assume "mset xs = mset ys"
  then have "mset (sort ys) = mset xs" by simp
  then show "sort xs = sort ys" by (rule properties_for_sort) simp
qed

lemma schemasMatch_iff_rounds:
  assumes "distinct (map fst (schema c))" "distinct (map fst stored)"
  shows "schemasMatch c stored \<longleftrightarrow>
         set (map fst (schema c)) = set (map fst stored) \<and>
         list_all (roundPasses (schema c) stored) (map fst (schema c))"
proof -
  let ?K = "map fst (schema c)" and ?K' = "map fst stored"
  have "schemasMatch c stored \<longleftrightarrow>
      length (sort ?K) = length (sort ?K') \<and> schemasMatch_loop (schema c) stored (sort ?K) (sort ?K')"
    by (simp add: schemasMatch_def Let_def)
  also have "\<dots> \<longleftrightarrow> sort ?K = sort ?K' \<and> list_all (roundPasses (schema c) stored) (sort ?K)"
  proof (cases "length (sort ?K) = length (sort ?K')")
    case True
    then show ?thesis using schemasMatch_loop_iff[OF True] by blast
  next
    case False
    then have "sort ?K \<noteq> sort ?K'" by metis
    then show ?thesis using False by blast
  qed
  also have "\<dots> \<longleftrightarrow> mset ?K = mset ?K' \<and> list_all (roundPasses (schema c) stored) ?K"
    by (simp add: sort_eq_iff_mset list_all_iff)
  also have "\<dots> \<longleftrightarrow> set ?K = set ?K' \<and> list_all (roundPasses (schema c) stored) ?K"
    using assms set_eq_iff_mset_eq_distinct[of ?K ?K'] by blast
  finally show ?thesis .
qed

lemma roundPasses_agree: "roundPasses a b f \<Longrightarrow> fieldsAgree a b f"
  by (auto simp: roundPasses_def fieldsAgree_def ignoreCaseFlag_def split: option.splits)

lemma schemasMatch_agree:
  assumes "distinct (map fst (schema c))" "distinct (map fst stored)" "schemasMatch c stored"
  shows "schemasAgree (schema c) stored"
proof -
  from assms(3) schemasMatch_iff_rounds[OF assms(1,2)]
  have k: "set (map fst (schema c)) = set (map fst stored)"
    and r: "list_all (roundPasses (schema c) stored) (map fst (schema c))"
    by blast+
  from r have "list_all (fieldsAgree (schema c) stored) (map fst (schema c))"
    using roundPasses_agree by (simp add: list_all_iff)
  with k show ?thesis by (simp add: schemasAgree_def)
qed

text \<open>
  A collection is constructed over the file adapter, which holds a meta artifact for
  its name; field names are distinct in both schemas, as the keys of an object are.
  When \<^verbatim>\<open>schemasMatch\<close> lets the recorded schema pass, the constructor leaves the
  storage as it is and calls no write method; otherwise it writes both artifacts
  once: the data artifact then holds no record and the meta artifact holds the
  constructor's schema and no index entry. Schemas that do not agree never pass, so
  a difference in the field names, in a type, in an indexed flag or in a
  case-folding setting always resets the artifacts.
\<close>

lemma constructor_keeps_or_resets:
  assumes "adapter st = FileAdapter" and "Storage_readMeta st nm = Some meta"
    and "distinct (map fst sch)" and "distinct (map fst (meta_schema meta))"
  shows "(schemasMatch (fst (new_Collection nm sch st)) (meta_schema meta) \<longrightarrow>
            snd (new_Collection nm sch st) = st) \<and>
         (\<not> schemasMatch (fst (new_Collection nm sch st)) (meta_schema meta) \<longrightarrow>
            Storage_readData (snd (new_Collection nm sch st)) nm = Some [] \<and>
            Storage_readMeta (snd (new_Collection nm sch st)) nm =
              Some \<lparr>meta_schema = json_schema sch, meta_indexes = Some []\<rparr> \<and>
            writeDataCalls (snd (new_Collection nm sch st)) = Suc (writeDataCalls st) \<and>
            writeMetaCalls (snd (new_Collection nm sch st)) = Suc (writeMetaCalls st)) \<and>
         (\<not> schemasAgree sch (meta_schema meta) \<longrightarrow>
            \<not> schemasMatch (fst (new_Collection nm sch st)) (meta_schema meta))"
proof -
  let ?c = "\<lparr>name = nm, schema = sch, fileMode = True, data = [], indexes = []\<rparr>"
  have c: "fst (new_Collection nm sch st) = ?c"
    using assms(1) by (simp add: new_Collection_def Let_def)
  have n: "snd (new_Collection nm sch st) = initFileMode ?c st"
    using assms(1) by (simp add: new_Collection_def Let_def)
  have a: "schemasMatch ?c (meta_schema meta) \<Longrightarrow> schemasAgree sch (meta_schema meta)"
    using schemasMatch_agree[of ?c "meta_schema meta"] assms(3,4) by simp
  show ?thesis
    unfolding n c using assms(1,2) a
    by (auto simp: initFileMode_def Storage_readData_written Storage_readMeta_written
        buildMeta_def json_meta_def json_data_def)
qed

text \<open>
  Claim C4, at a schema that writes a default out. The meta artifact of a
  disk-backed collection records a schema whose indexed name leaves the
  case-folding setting out, and the data artifact holds one record. A collection
  is then constructed for the same name with the schema that writes the setting as
  \<^verbatim>\<open>false\<close>. Both schemas are valid, they agree (the same field name, type, indexed
  flag and case-folding setting: neither index folds case) and they build the same
  indexes; yet \<^verbatim>\<open>schemasMatch\<close> rejects the recorded schema, and the constructor
  rewrites both artifacts: the record is gone.
\<close>

theorem constructor_resets_on_written_default:
  "validateSchema names_schema = None \<and> validateSchema names_schema_explicit = None \<and>
   meta_schema (the (Storage_readMeta (snd one_name) ''names'')) = names_schema \<and>
   schemasAgree names_schema_explicit names_schema \<and>
   indexes (fst (new_Collection ''names'' names_schema_explicit (empty_storage MemoryAdapter)))
     = indexes (fst (new_Collection ''names'' names_schema (empty_storage MemoryAdapter))) \<and>
   \<not> schemasMatch (fst (new_Collection ''names'' names_schema_explicit (snd one_name))) names_schema \<and>
   Storage_readData (snd one_name) ''names'' = Some [(''1'', [(''name'', Str ''Josef'')])] \<and>
   snd (new_Collection ''names'' names_schema (snd one_name)) = snd one_name \<and>
   Storage_readData (snd (new_Collection ''names'' names_schema_explicit (snd one_name))) ''names''
     = Some [] \<and>
   Storage_readMeta (snd (new_Collection ''names'' names_schema_explicit (snd one_name))) ''names''
     = Some \<lparr>meta_schema = names_schema_explicit, meta_indexes = Some []\<rparr> \<and>
   get (fst (new_Collection ''names'' names_schema (snd one_name)))
       (snd (new_Collection ''names'' names_schema (snd one_name))) ''1''
     = Some [(''_id'', Str ''1''), (''name'', Str ''Josef'')] \<and>
   get (fst (new_Collection ''names'' names_schema_explicit (snd one_name)))
       (snd (new_Collection ''names'' names_schema_explicit (snd one_name))) ''1''
     = None"
  by code_simp

section \<open>Collection: a second instance over the same files\<close>

lemma roundPasses_json:
  assumes "f \<in> set (map fst s)"
  shows "roundPasses s (json_schema s) f"
proof -
  from assms obtain d where "map_of s f = Some d"
    by (metis map_of_eq_None_iff not_Some_eq set_map)
  then show ?thesis
    by (simp add: roundPasses_def map_of_json_schema ignoreCaseSetting_def)
qed

lemma schemasMatch_json: "schemasMatch c (json_schema (schema c))"
proof -
  have "list_all (roundPasses (schema c) (json_schema (schema c))) (sort (map fst (schema c)))"
    using roundPasses_json by (simp add: list_all_iff)
  then show ?thesis
    using schemasMatch_loop_iff[of "sort (map fst (schema c))" "sort (map fst (schema c))"
        "schema c" "json_schema (schema c)"]
    by (simp add: schemasMatch_def Let_def)
qed

lemma fileInv_written:
  assumes "fileMode c" "adapter st = FileAdapter" "data c = []" "indexes c = []"
  shows "fileInv (c, Storage_writeMeta (Storage_writeData st (name c) d) (name c) (buildMeta c idxs))"
  using assms schemasMatch_json[of c]
  by (simp add: fileInv_def Storage_readMeta_written buildMeta_def json_meta_def)

lemma fileInv_new:
  assumes "adapter st = FileAdapter"
  shows "fileInv (new_Collection nm sch st)"
proof -
  let ?c = "\<lparr>name = nm, schema = sch, fileMode = True, data = [], indexes = []\<rparr>"
  have n: "new_Collection nm sch st = (?c, initFileMode ?c st)"
    using assms by (simp add: new_Collection_def Let_def)
  show ?thesis
  proof (cases "Storage_readMeta st nm")
    case None
    then show ?thesis unfolding n
      using fileInv_written[of ?c st "[]" "[]"] assms by (simp add: initFileMode_def)
  next
    case (Some m)
    show ?thesis
    proof (cases "schemasMatch ?c (meta_schema m)")
      case True
      then show ?thesis unfolding n using Some assms by (simp add: initFileMode_def fileInv_def)
    next
      case False
      then show ?thesis unfolding n
        using fileInv_written[of ?c st "[]" "[]"] assms Some by (simp add: initFileMode_def)
    qed
  qed
qed

lemma fileInv_call:
  assumes "fileInv cs"
  shows "fileInv (applyCall cs op) \<and> fst (applyCall cs op) = fst cs"
proof -
  obtain c st where cs: "cs = (c, st)" by (cases cs)
  with assms have f: "fileMode c" "adapter st = FileAdapter" "data c = []" "indexes c = []"
    by (simp_all add: fileInv_def)
  note w = fileInv_written[OF f]
  show ?thesis
  proof (cases op)
    case (OpCAdd i r)
    then show ?thesis using assms cs f w
      by (auto simp: add_def Let_def writeData_def split: option.splits)
  next
    case (OpCAddMany ids rs)
    then show ?thesis using assms cs f w
      by (auto simp: addMany_def Let_def writeData_def split: sum.splits)
  next
    case (OpCUpdate i p)
    then show ?thesis using assms cs f w
      by (auto simp: update_def Let_def writeData_def split: option.splits)
  next
    case (OpCRemove i)
    then show ?thesis using assms cs f w
      by (auto simp: remove_def Let_def writeData_def split: option.splits)
  next
    case OpCClear
    then show ?thesis using assms cs f w by (auto simp: clear_def)
  qed
qed

lemma fileInv_run:
  assumes "fileInv cs"
  shows "fileInv (runCalls cs ops) \<and> fst (runCalls cs ops) = fst cs"
  using assms
proof (induction ops arbitrary: cs)
  case Nil
  then show ?case by (simp add: runCalls_def)
next
  case (Cons op ops)
  from fileInv_call[OF Cons.prems, of op] Cons.IH[of "applyCall cs op"]
  show ?case by (simp add: runCalls_def)
qed

lemma fileInv_reopen:
  assumes "fileInv cs"
  shows "new_Collection (name (fst cs)) (schema (fst cs)) (snd cs) = cs"
proof -
  obtain c st where cs: "cs = (c, st)" by (cases cs)
  from assms cs obtain m where f: "fileMode c" "adapter st = FileAdapter" "data c = []" "indexes c = []"
    "Storage_readMeta st (name c) = Some m" "schemasMatch c (meta_schema m)"
    by (auto simp: fileInv_def)
  let ?c = "\<lparr>name = name c, schema = schema c, fileMode = True, data = [], indexes = []\<rparr>"
  have e: "?c = c" using f(1,3,4) by simp
  have sm: "schemasMatch ?c (meta_schema m)"
    using f(6) by (auto simp: schemasMatch_def Let_def split: if_splits)
  have "new_Collection (name c) (schema c) st = (?c, st)"
    using f(2,5) sm by (simp add: new_Collection_def Let_def initFileMode_def)
  then show ?thesis using cs e by simp
qed

lemma new_Collection_name_schema:
  "name (fst (new_Collection nm sch st)) = nm" "schema (fst (new_Collection nm sch st)) = sch"
  by (simp_all add: new_Collection_def Let_def initMemoryIndexes_def)

lemma map_of_json_data: "map_of (json_data d) i = map_option json_obj (map_of d i)"
  by (induction d) (auto simp: json_data_def)


text \<open>
  A collection \<open>A\<close> is constructed over the file adapter and any sequence of calls is
  run on it; a collection constructed afterwards for the same name with the same
  schema is \<open>A\<close> again, over the storage as \<open>A\<close> left it: the constructor finds the
  schema it recorded and writes nothing, and a disk-backed collection keeps no data
  in the process.
\<close>

lemma second_instance_is_first:
  assumes "adapter st0 = FileAdapter"
  shows "new_Collection nm sch (snd (runCalls (new_Collection nm sch st0) ops))
           = runCalls (new_Collection nm sch st0) ops"
proof -
  define S where "S = runCalls (new_Collection nm sch st0) ops"
  have inv: "fileInv S" and A: "fst S = fst (new_Collection nm sch st0)"
    using fileInv_run[OF fileInv_new[OF assms, of nm sch], of ops] by (simp_all add: S_def)
  have ns: "name (fst S) = nm" "schema (fst S) = sch"
    using A new_Collection_name_schema by simp_all
  show ?thesis
    unfolding S_def[symmetric] using fileInv_reopen[OF inv] ns by simp
qed

text \<open>
  Claim C3, at a record with an infinite age. The record passes the validation of
  \<^verbatim>\<open>add\<close>, which rejects \<^verbatim>\<open>NaN\<close> only, and \<^verbatim>\<open>A.add\<close> returns its document with the
  infinite age; the file adapter writes both artifacts as JSON text, which holds
  \<^verbatim>\<open>null\<close> in the place of the age. A second instance \<open>B\<close>, constructed with the same
  schema (its construction writes nothing), returns from \<^verbatim>\<open>get\<close> and \<^verbatim>\<open>all\<close> a document
  whose age is \<^verbatim>\<open>null\<close>, a record the validation itself rejects, and its \<^verbatim>\<open>find\<close>
  misses the document for the ages above 100 and for the age \<^verbatim>\<open>Infinity\<close>. The
  memory-backed collection returns the document as it was added on all three ways.
\<close>

theorem second_instance_reads_null_age:
  "validateRecord ageless users_schema False = None \<and>
   fst (add (fst (new_Collection ''users'' users_schema (empty_storage FileAdapter)))
            (snd (new_Collection ''users'' users_schema (empty_storage FileAdapter))) ''1'' ageless)
     = Inr ((''_id'', Str ''1'') # ageless) \<and>
   new_Collection ''users'' users_schema (snd (one_ageless FileAdapter)) = one_ageless FileAdapter \<and>
   get (fst (new_Collection ''users'' users_schema (snd (one_ageless FileAdapter))))
       (snd (new_Collection ''users'' users_schema (snd (one_ageless FileAdapter)))) ''1''
     = Some [(''_id'', Str ''1''), (''name'', Str ''Ann''), (''age'', Null), (''sex'', Str ''female'')] \<and>
   all (fst (new_Collection ''users'' users_schema (snd (one_ageless FileAdapter))))
       (snd (new_Collection ''users'' users_schema (snd (one_ageless FileAdapter))))
     = [[(''_id'', Str ''1''), (''name'', Str ''Ann''), (''age'', Null), (''sex'', Str ''female'')]] \<and>
   validateRecord [(''name'', Str ''Ann''), (''age'', Null), (''sex'', Str ''female'')] users_schema False
     = Some (MustBeNumber ''age'') \<and>
   find (\<lambda>q. []) (fst (new_Collection ''users'' users_schema (snd (one_ageless FileAdapter))))
       (snd (new_Collection ''users'' users_schema (snd (one_ageless FileAdapter)))) [(''age'', ''>100'')]
     = Inr [] \<and>
   find (\<lambda>q. []) (fst (new_Collection ''users'' users_schema (snd (one_ageless FileAdapter))))
       (snd (new_Collection ''users'' users_schema (snd (one_ageless FileAdapter)))) [(''age'', ''Infinity'')]
     = Inr [] \<and>
   get (fst (one_ageless MemoryAdapter)) (snd (one_ageless MemoryAdapter)) ''1''
     = Some ((''_id'', Str ''1'') # ageless) \<and>
   find (\<lambda>q. []) (fst (one_ageless MemoryAdapter)) (snd (one_ageless MemoryAdapter)) [(''age'', ''>100'')]
     = Inr [Some ((''_id'', Str ''1'') # ageless)] \<and>
   find (\<lambda>q. []) (fst (one_ageless MemoryAdapter)) (snd (one_ageless MemoryAdapter)) [(''age'', ''Infinity'')]
     = Inr [Some ((''_id'', Str ''1'') # ageless)]"
  by code_simp

section \<open>Collection: an update that sets an indexed field to undefined\<close>

text \<open>
  Claim C1 asks that \<^verbatim>\<open>find\<close> with an exact value on an indexed field returns exactly
  the stored identifiers whose field has that value, after any sequence of calls.
  The code does not do so after \<^verbatim>\<open>update(id, { name: undefined })\<close>: the validation
  of a partial record passes, the loop over the indexes skips the field, and
  \<^verbatim>\<open>Object.assign\<close> still writes \<^verbatim>\<open>undefined\<close> into the stored record. The document of
  identifier 1 no longer has a name, and \<^verbatim>\<open>find({ name: 'josef' })\<close> still returns
  it; once the record is removed, whose name is no longer there to be taken out of
  the index, \<^verbatim>\<open>find\<close> returns \<^verbatim>\<open>undefined\<close> for its identifier.
\<close>

theorem update_undefined_leaves_index_entry:
  "get (fst (runCalls (two_users MemoryAdapter) [OpCUpdate ''1'' [(''name'', Undefined)]]))
       (snd (runCalls (two_users MemoryAdapter) [OpCUpdate ''1'' [(''name'', Undefined)]])) ''1''
     = Some [(''_id'', Str ''1''), (''name'', Undefined), (''age'', Num (Fin 30)), (''sex'', Str ''male'')] \<and>
   find (\<lambda>q. []) (fst (runCalls (two_users MemoryAdapter) [OpCUpdate ''1'' [(''name'', Undefined)]]))
       (snd (runCalls (two_users MemoryAdapter) [OpCUpdate ''1'' [(''name'', Undefined)]]))
       [(''name'', ''josef'')]
     = Inr [Some [(''_id'', Str ''1''), (''name'', Undefined), (''age'', Num (Fin 30)), (''sex'', Str ''male'')]] \<and>
   get (fst (runCalls (two_users MemoryAdapter) [OpCUpdate ''1'' [(''name'', Undefined)], OpCRemove ''1'']))
       (snd (runCalls (two_users MemoryAdapter) [OpCUpdate ''1'' [(''name'', Undefined)], OpCRemove ''1''])) ''1''
     = None \<and>
   find (\<lambda>q. []) (fst (runCalls (two_users MemoryAdapter) [OpCUpdate ''1'' [(''name'', Undefined)], OpCRemove ''1'']))
       (snd (runCalls (two_users MemoryAdapter) [OpCUpdate ''1'' [(''name'', Undefined)], OpCRemove ''1'']))
       [(''name'', ''josef'')]
     = Inr [None]"
  by code_simp

section \<open>Collection: addMany and repeated add\<close>

lemma validateAll_valid:
  "list_all (validRecord c) rs \<Longrightarrow> validateAll c ids k rs = Inr (validatedOf c ids k rs)"
  by (induction rs arbitrary: k) (auto simp: validRecord_def Let_def)

lemma storeAll_fst: "fst (storeAll d I v) = foldl (\<lambda>d p. setprop (fst p) (snd p) d) d v"
  by (induction v arbitrary: d I) simp_all

lemma storeAll_snd: "snd (storeAll d I v) = foldl (\<lambda>I p. indexRecord I (fst p) (snd p)) I v"
  by (induction v arbitrary: d I) simp_all

lemma same_schema:
  assumes "schema c' = schema c"
  shows "applyDefaults c' = applyDefaults c" "validRecord c' = validRecord c"
    "validatedOf c' ids k rs = validatedOf c ids k rs"
proof -
  show a: "applyDefaults c' = applyDefaults c"
    using assms by (intro ext) (simp add: applyDefaults_def)
  show "validRecord c' = validRecord c"
    using assms a by (intro ext) (simp add: validRecord_def)
  show "validatedOf c' ids k rs = validatedOf c ids k rs"
    using a by (induction rs arbitrary: k) simp_all
qed

lemma addEach_memory:
  assumes "\<not> fileMode c" "list_all (validRecord c) rs"
  shows "addEach c st ids k rs =
    (Inr (map (\<lambda>p. toDocument (fst p) (snd p)) (validatedOf c ids k rs)),
     c\<lparr>data := fst (storeAll (data c) (indexes c) (validatedOf c ids k rs)),
       indexes := snd (storeAll (data c) (indexes c) (validatedOf c ids k rs))\<rparr>,
     st)"
  using assms
proof (induction rs arbitrary: c k)
  case Nil
  then show ?case by simp
next
  case (Cons r rs)
  let ?wd = "applyDefaults c r"
  let ?c1 = "c\<lparr>data := setprop (ids k) ?wd (data c), indexes := indexRecord (indexes c) (ids k) ?wd\<rparr>"
  have vs: "list_all (validRecord c) rs" using Cons.prems(2) by simp
  have v: "validateRecord ?wd (schema c) False = None"
    using Cons.prems(2) by (simp add: validRecord_def)
  have a: "add c st (ids k) r = (Inr (toDocument (ids k) ?wd), ?c1, st)"
    using Cons.prems(1) v by (simp add: add_def Let_def)
  have s: "schema ?c1 = schema c" by simp
  have "addEach ?c1 st ids (Suc k) rs =
    (Inr (map (\<lambda>p. toDocument (fst p) (snd p)) (validatedOf ?c1 ids (Suc k) rs)),
     ?c1\<lparr>data := fst (storeAll (data ?c1) (indexes ?c1) (validatedOf ?c1 ids (Suc k) rs)),
       indexes := snd (storeAll (data ?c1) (indexes ?c1) (validatedOf ?c1 ids (Suc k) rs))\<rparr>,
     st)"
    by (rule Cons.IH) (use Cons.prems(1) vs same_schema(2)[OF s] in simp_all)
  then show ?case
    using a by (simp add: same_schema(3)[OF s])
qed


subsection \<open>The indexes read from the meta artifact\<close>

lemma setprop_append: "k \<notin> fst ` set ps \<Longrightarrow> setprop k v ps = ps @ [(k, v)]"
  by (induction ps) auto

lemma foldl_setprop_distinct:
  assumes "distinct (map fst xs)" "fst ` set acc \<inter> fst ` set xs = {}"
  shows "foldl (\<lambda>m p. if Q p then setprop (fst p) (g p) m else m) acc xs =
         acc @ map (\<lambda>p. (fst p, g p)) (filter Q xs)"
  using assms
proof (induction xs arbitrary: acc)
  case Nil
  then show ?case by simp
next
  case (Cons x xs)
  show ?case
  proof (cases "Q x")
    case True
    have n: "fst x \<notin> fst ` set acc" using Cons.prems(2) by auto
    have d: "fst ` set (acc @ [(fst x, g x)]) \<inter> fst ` set xs = {}"
      using Cons.prems by auto
    show ?thesis
      using True Cons.IH[OF _ d] Cons.prems(1) by (simp add: setprop_append[OF n])
  next
    case False
    have d: "fst ` set acc \<inter> fst ` set xs = {}" using Cons.prems(2) by auto
    show ?thesis using False Cons.IH[OF _ d] Cons.prems(1) by simp
  qed
qed

lemma indexesOver_distinct:
  assumes "distinct (map fst sch)"
  shows "indexesOver sch mk = map (\<lambda>p. (fst p, mk (fst p) (snd p))) (indexedFields sch)"
  using foldl_setprop_distinct[OF assms, of "[]" "\<lambda>p. truthy (index (snd p))" "\<lambda>p. mk (fst p) (snd p)"]
  by (simp add: indexesOver_def indexedFields_def)

lemma shaped_map:
  assumes "\<And>p. p \<in> set (indexedFields sch) \<Longrightarrow>
     field (mk p) = fst p \<and> fieldType (mk p) = ftype (snd p) \<and> ignoreCase (mk p) = ignoreCaseFlag (snd p)"
  shows "shaped sch (map (\<lambda>p. (fst p, mk p)) (indexedFields sch))"
  using assms by (simp add: shaped_def list_all2_map2 list_all2_same)

lemma shaped_load:
  assumes "distinct (map fst (schema c))"
  shows "shaped (schema c) (loadIndexesFromMeta c st)"
proof -
  have b: "shaped (schema c) (buildIndexes c)"
    unfolding buildIndexes_def indexesOver_distinct[OF assms]
    by (rule shaped_map) (simp add: indexFor_def new_Index_def)
  have l: "shaped (schema c) (indexesOver (schema c)
          (\<lambda>f d. case map_of ser f of
                   Some es \<Rightarrow> Index_fromEntries f (ftype d) (ignoreCaseFlag d) es
                 | None \<Rightarrow> indexFor f d))" for ser
    unfolding indexesOver_distinct[OF assms]
    by (rule shaped_map) (simp add: indexFor_def new_Index_def Index_fromEntries_def split: option.splits)
  show ?thesis
    using b l by (simp add: loadIndexesFromMeta_def split: option.splits)
qed

lemma Index_add_attrs [simp]:
  "field (Index_add idx i v) = field idx" "ignoreCase (Index_add idx i v) = ignoreCase idx"
  by (simp_all add: Index_add_def Let_def)

lemma shaped_indexRecord:
  assumes "shaped sch idxs"
  shows "shaped sch (indexRecord idxs i wd)"
  using assms
  by (auto simp: shaped_def indexRecord_def list_all2_map2 Let_def elim!: list_all2_mono)


lemma json_entries_keeps_iff:
  "json_entries es = es \<longleftrightarrow> (\<forall>e \<in> set es. json_val (evalue e) = evalue e)"
proof (induction es)
  case Nil
  then show ?case by (simp add: json_entries_def)
next
  case (Cons e es)
  have "e\<lparr>evalue := json_val (evalue e)\<rparr> = e \<longleftrightarrow> json_val (evalue e) = evalue e"
    by (cases e) auto
  then show ?case using Cons by (simp add: json_entries_def)
qed

lemma keeps_load:
  assumes "adapter st = FileAdapter"
  shows "jsonKeepsEntries (loadIndexesFromMeta c st)"
proof -
  have new: "json_entries (entries (indexFor f d)) = entries (indexFor f d)" for f d
    by (simp add: indexFor_def new_Index_def json_entries_def)
  have over: "jsonKeepsEntries (indexesOver sch mk)"
    if "\<And>f d. json_entries (entries (mk f d)) = entries (mk f d)" for sch mk
  proof -
    have "jsonKeepsEntries (foldl (\<lambda>m p. if truthy (index (snd p)) then setprop (fst p) (mk (fst p) (snd p)) m else m) acc sch)"
      if "jsonKeepsEntries acc" for acc
      using that
    proof (induction sch arbitrary: acc)
      case Nil
      then show ?case by simp
    next
      case (Cons p sch)
      have "jsonKeepsEntries (setprop k (mk k d) acc)" for k d
        using Cons.prems \<open>\<And>f d. json_entries (entries (mk f d)) = entries (mk f d)\<close>
        by (induction acc) (auto simp: jsonKeepsEntries_def)
      then show ?case using Cons by simp
    qed
    then show ?thesis by (simp add: indexesOver_def jsonKeepsEntries_def)
  qed
  show ?thesis
  proof (cases "Storage_readMeta st (name c)")
    case None
    then show ?thesis using over[of indexFor] new by (simp add: loadIndexesFromMeta_def buildIndexes_def)
  next
    case (Some meta)
    from Some assms obtain raw where m: "meta = json_meta raw"
      by (auto simp: Storage_readMeta_def)
    show ?thesis
    proof (cases "meta_indexes meta")
      case None
      then show ?thesis using Some over[of indexFor] new
        by (simp add: loadIndexesFromMeta_def buildIndexes_def)
    next
      case (Some ser)
      have st: "json_entries es = es" if "map_of ser f = Some es" for f es
      proof -
        from Some m obtain ser0 where "ser = map (\<lambda>p. (fst p, json_entries (snd p))) ser0"
          by (cases "meta_indexes raw") (auto simp: json_meta_def)
        with that have "(f, es) \<in> set (map (\<lambda>p. (fst p, json_entries (snd p))) ser0)"
          using map_of_SomeD by fastforce
        then obtain es0 where "es = json_entries es0" by auto
        then show ?thesis by simp
      qed
      have "json_entries (entries (case map_of ser f of
                   Some es \<Rightarrow> Index_fromEntries f (ftype d) (ignoreCaseFlag d) es
                 | None \<Rightarrow> indexFor f d)) =
            entries (case map_of ser f of
                   Some es \<Rightarrow> Index_fromEntries f (ftype d) (ignoreCaseFlag d) es
                 | None \<Rightarrow> indexFor f d)" for f d
        using st[of f] new by (auto simp: Index_fromEntries_def split: option.splits)
      from over[of "\<lambda>f d. case map_of ser f of
                   Some es \<Rightarrow> Index_fromEntries f (ftype d) (ignoreCaseFlag d) es
                 | None \<Rightarrow> indexFor f d", OF this]
      show ?thesis using Some \<open>Storage_readMeta st (name c) = Some meta\<close>
        by (simp add: loadIndexesFromMeta_def)
    qed
  qed
qed

lemma json_val_normalize:
  "json_val v = v \<Longrightarrow> json_val (Index_normalize idx v) = Index_normalize idx v"
  by (cases v) (auto simp: Index_normalize_def)

lemma keeps_Index_add:
  assumes "json_entries (entries idx) = entries idx" "json_val v = v"
  shows "json_entries (entries (Index_add idx i v)) = entries (Index_add idx i v)"
proof -
  have "set (splice_insert k e es) \<subseteq> insert e (set es)" for k and e :: IndexEntry and es
    using set_take_subset[of k es] set_drop_subset[of k es] by (auto simp: splice_insert_def)
  then show ?thesis
    using assms json_val_normalize[OF assms(2), of idx]
    unfolding json_entries_keeps_iff Index_add_def Let_def by fastforce
qed

lemma keeps_indexRecord:
  assumes "jsonKeepsEntries idxs"
    and "\<And>q. q \<in> set idxs \<Longrightarrow> json_val (getprop wd (fst q)) = getprop wd (fst q)"
  shows "jsonKeepsEntries (indexRecord idxs i wd)"
  using assms keeps_Index_add
  by (auto simp: jsonKeepsEntries_def indexRecord_def list_all_iff Let_def)


lemma shaped_keys: "shaped sch idxs \<Longrightarrow> map fst idxs = map fst (indexedFields sch)"
  by (auto simp: shaped_def list_all2_conv_all_nth intro!: nth_equalityI)

lemma buildMeta_distinct:
  assumes "distinct (map fst idxs)"
  shows "buildMeta c idxs =
    \<lparr>meta_schema = schema c, meta_indexes = Some (map (\<lambda>q. (fst q, entries (snd q))) idxs)\<rparr>"
  using foldl_setprop_distinct[OF assms, of "[]" "\<lambda>p. True" "\<lambda>p. Index_serialize (snd p)"]
  by (simp add: buildMeta_def Index_serialize_def)

lemma load_written:
  assumes "adapter st = FileAdapter" "distinct (map fst (schema c))"
    and "shaped (schema c) idxs" "jsonKeepsEntries idxs"
  shows "loadIndexesFromMeta c (Storage_writeMeta st (name c) (buildMeta c idxs)) = idxs"
proof -
  let ?F = "indexedFields (schema c)"
  let ?ser = "map (\<lambda>q. (fst q, entries (snd q))) idxs"
  have keys: "map fst idxs = map fst ?F" by (rule shaped_keys[OF assms(3)])
  have dF: "distinct (map fst ?F)"
    using assms(2) by (simp add: indexedFields_def distinct_map_filter)
  then have dI: "distinct (map fst idxs)" using keys by simp
  have len: "length idxs = length ?F" using keys by (metis length_map)
  have keep: "map (\<lambda>p. (fst p, json_entries (snd p))) ?ser = ?ser"
    using assms(4) by (simp add: jsonKeepsEntries_def list_all_iff o_def)
  have rd: "Storage_readMeta (Storage_writeMeta st (name c) (buildMeta c idxs)) (name c) =
      Some \<lparr>meta_schema = json_schema (schema c), meta_indexes = Some ?ser\<rparr>"
    using assms(1) keep
    by (simp add: Storage_readMeta_written buildMeta_distinct[OF dI] json_meta_def o_def)
  have ld: "loadIndexesFromMeta c (Storage_writeMeta st (name c) (buildMeta c idxs)) =
      map (\<lambda>p. (fst p, case map_of ?ser (fst p) of
                          Some es \<Rightarrow> Index_fromEntries (fst p) (ftype (snd p)) (ignoreCaseFlag (snd p)) es
                        | None \<Rightarrow> indexFor (fst p) (snd p))) ?F"
    by (simp add: loadIndexesFromMeta_def rd indexesOver_distinct[OF assms(2)])
  show ?thesis
    unfolding ld
  proof (rule nth_equalityI)
    show "length (map (\<lambda>p. (fst p, case map_of ?ser (fst p) of
                          Some es \<Rightarrow> Index_fromEntries (fst p) (ftype (snd p)) (ignoreCaseFlag (snd p)) es
                        | None \<Rightarrow> indexFor (fst p) (snd p))) ?F) = length idxs"
      using len by simp
  next
    fix n assume "n < length (map (\<lambda>p. (fst p, case map_of ?ser (fst p) of
                          Some es \<Rightarrow> Index_fromEntries (fst p) (ftype (snd p)) (ignoreCaseFlag (snd p)) es
                        | None \<Rightarrow> indexFor (fst p) (snd p))) ?F)"
    then have n: "n < length ?F" "n < length idxs" using len by simp_all
    let ?p = "?F ! n" and ?q = "idxs ! n"
    have at: "fst ?q = fst ?p" "field (snd ?q) = fst ?p" "fieldType (snd ?q) = ftype (snd ?p)"
      "ignoreCase (snd ?q) = ignoreCaseFlag (snd ?p)"
      using assms(3) n by (simp_all add: shaped_def list_all2_conv_all_nth)
    have "(fst ?q, entries (snd ?q)) \<in> set ?ser" using n(2) by force
    moreover have "distinct (map fst ?ser)" using dI by (simp add: o_def)
    ultimately have "map_of ?ser (fst ?q) = Some (entries (snd ?q))" by (rule map_of_is_SomeI[rotated])
    then have "map_of ?ser (fst ?p) = Some (entries (snd ?q))" using at(1) by simp
    moreover have "Index_fromEntries (fst ?p) (ftype (snd ?p)) (ignoreCaseFlag (snd ?p)) (entries (snd ?q)) = snd ?q"
      using at by (simp add: Index_fromEntries_def)
    ultimately show "map (\<lambda>p. (fst p, case map_of ?ser (fst p) of
                          Some es \<Rightarrow> Index_fromEntries (fst p) (ftype (snd p)) (ignoreCaseFlag (snd p)) es
                        | None \<Rightarrow> indexFor (fst p) (snd p))) ?F ! n = idxs ! n"
      using n at(1) by (simp add: prod_eq_iff)
  qed
qed

subsection \<open>The data read from the data artifact\<close>

lemma json_data_setprop: "json_data (setprop i r d) = setprop i (json_obj r) (json_data d)"
  by (induction d) (auto simp: json_data_def)

lemma readData_keeps:
  "adapter st = FileAdapter \<Longrightarrow> json_data (readData c st) = readData c st"
  by (auto simp: readData_def Storage_readData_def json_data_def split: option.splits)

lemma readData_written:
  "adapter st = FileAdapter \<Longrightarrow> readData c (Storage_writeData st (name c) d) = json_data d"
  by (simp add: readData_def Storage_readData_written)

lemma json_data_store:
  "json_data (foldl (\<lambda>d p. setprop (fst p) (snd p) d) (json_data d) v) =
   json_data (foldl (\<lambda>d p. setprop (fst p) (snd p) d) d v)"
proof (induction v arbitrary: d)
  case Nil
  then show ?case by simp
next
  case (Cons p v)
  have "json_data (foldl (\<lambda>d p. setprop (fst p) (snd p) d) (setprop (fst p) (snd p) (json_data d)) v)
      = json_data (foldl (\<lambda>d p. setprop (fst p) (snd p) d) (json_data (setprop (fst p) (snd p) (json_data d))) v)"
    by (simp only: Cons.IH)
  also have "json_data (setprop (fst p) (snd p) (json_data d)) = json_data (setprop (fst p) (snd p) d)"
    by (simp add: json_data_setprop)
  finally show ?case by (simp add: Cons.IH)
qed


subsection \<open>One add, and many, in file mode\<close>

lemma load_after_writeData [simp]:
  "loadIndexesFromMeta c (Storage_writeData st n d) = loadIndexesFromMeta c st"
  by (simp add: loadIndexesFromMeta_def)

lemma readData_after_writeMeta [simp]:
  "readData c (Storage_writeMeta st n m) = readData c st"
  by (simp add: readData_def)

lemma indexed_values_kept:
  assumes "shaped (schema c) idxs" "jsonKeepsIndexed c r" "q \<in> set idxs"
  shows "json_val (getprop (applyDefaults c r) (fst q)) = getprop (applyDefaults c r) (fst q)"
proof -
  have "fst q \<in> set (map fst (indexedFields (schema c)))"
    using shaped_keys[OF assms(1)] assms(3) by (metis image_eqI set_map)
  then obtain p where "p \<in> set (schema c)" "truthy (index (snd p))" "fst p = fst q"
    by (auto simp: indexedFields_def)
  then show ?thesis using assms(2) by (auto simp: jsonKeepsIndexed_def list_all_iff)
qed

lemma add_file:
  assumes "fileMode c" "adapter st = FileAdapter" "distinct (map fst (schema c))"
    and "validRecord c r" "jsonKeepsIndexed c r"
  shows "\<exists>st2. add c st i r = (Inr (toDocument i (applyDefaults c r)), c, st2) \<and>
           adapter st2 = FileAdapter \<and>
           readData c st2 = json_data (setprop i (applyDefaults c r) (readData c st)) \<and>
           loadIndexesFromMeta c st2 = indexRecord (loadIndexesFromMeta c st) i (applyDefaults c r) \<and>
           writeDataCalls st2 = Suc (writeDataCalls st) \<and>
           writeMetaCalls st2 = Suc (writeMetaCalls st)"
proof -
  let ?wd = "applyDefaults c r"
  let ?st1 = "Storage_writeData st (name c) (setprop i ?wd (readData c st))"
  let ?idxs = "indexRecord (loadIndexesFromMeta c st) i ?wd"
  let ?st2 = "Storage_writeMeta ?st1 (name c) (buildMeta c ?idxs)"
  have a: "add c st i r = (Inr (toDocument i ?wd), c, ?st2)"
    using assms(1,4) by (simp add: add_def Let_def validRecord_def writeData_def)
  have sh: "shaped (schema c) (loadIndexesFromMeta c st)" by (rule shaped_load[OF assms(3)])
  have sh': "shaped (schema c) ?idxs" by (rule shaped_indexRecord[OF sh])
  have k': "jsonKeepsEntries ?idxs"
    by (rule keeps_indexRecord[OF keeps_load[OF assms(2)]]) (rule indexed_values_kept[OF sh assms(5)])
  have ad: "adapter ?st1 = FileAdapter" using assms(2) by simp
  have "loadIndexesFromMeta c ?st2 = ?idxs" by (rule load_written[OF ad assms(3) sh' k'])
  moreover have "readData c ?st2 = json_data (setprop i ?wd (readData c st))"
    using assms(2) by (simp add: readData_written)
  ultimately show ?thesis using a assms(2) by simp
qed

lemma store_keeps:
  assumes "shaped (schema c) idxs" "jsonKeepsEntries idxs" "list_all (jsonKeepsIndexed c) rs"
  shows "shaped (schema c) (foldl (\<lambda>I p. indexRecord I (fst p) (snd p)) idxs (validatedOf c ids k rs)) \<and>
         jsonKeepsEntries (foldl (\<lambda>I p. indexRecord I (fst p) (snd p)) idxs (validatedOf c ids k rs))"
  using assms
proof (induction rs arbitrary: idxs k)
  case Nil
  then show ?case by simp
next
  case (Cons r rs)
  have kr: "jsonKeepsIndexed c r" and krs: "list_all (jsonKeepsIndexed c) rs"
    using Cons.prems(3) by simp_all
  have sh: "shaped (schema c) (indexRecord idxs (ids k) (applyDefaults c r))"
    by (rule shaped_indexRecord[OF Cons.prems(1)])
  have ke: "jsonKeepsEntries (indexRecord idxs (ids k) (applyDefaults c r))"
    by (rule keeps_indexRecord[OF Cons.prems(2)]) (rule indexed_values_kept[OF Cons.prems(1) kr])
  from Cons.IH[OF sh ke krs] show ?case by simp
qed

lemma addEach_file:
  assumes "fileMode c" "adapter st = FileAdapter" "distinct (map fst (schema c))"
    and "list_all (validRecord c) rs" "list_all (jsonKeepsIndexed c) rs"
  shows "\<exists>stN. addEach c st ids k rs =
             (Inr (map (\<lambda>p. toDocument (fst p) (snd p)) (validatedOf c ids k rs)), c, stN) \<and>
           adapter stN = FileAdapter \<and>
           readData c stN =
             json_data (foldl (\<lambda>d p. setprop (fst p) (snd p) d) (readData c st) (validatedOf c ids k rs)) \<and>
           loadIndexesFromMeta c stN =
             foldl (\<lambda>I p. indexRecord I (fst p) (snd p)) (loadIndexesFromMeta c st) (validatedOf c ids k rs) \<and>
           writeDataCalls stN = writeDataCalls st + length rs \<and>
           writeMetaCalls stN = writeMetaCalls st + length rs"
  using assms(2,4,5)
proof (induction rs arbitrary: st k)
  case Nil
  then show ?case by (simp add: readData_keeps)
next
  case (Cons r rs)
  have vr: "validRecord c r" and vrs: "list_all (validRecord c) rs"
    and kr: "jsonKeepsIndexed c r" and krs: "list_all (jsonKeepsIndexed c) rs"
    using Cons.prems(2,3) by simp_all
  let ?wd = "applyDefaults c r"
  from add_file[OF assms(1) Cons.prems(1) assms(3) vr kr, of "ids k"]
  obtain st2 where a: "add c st (ids k) r = (Inr (toDocument (ids k) ?wd), c, st2)"
    and ad: "adapter st2 = FileAdapter"
    and rd: "readData c st2 = json_data (setprop (ids k) ?wd (readData c st))"
    and ld: "loadIndexesFromMeta c st2 = indexRecord (loadIndexesFromMeta c st) (ids k) ?wd"
    and wc: "writeDataCalls st2 = Suc (writeDataCalls st)" "writeMetaCalls st2 = Suc (writeMetaCalls st)"
    by blast
  from Cons.IH[OF ad vrs krs, of "Suc k"]
  obtain stN where e: "addEach c st2 ids (Suc k) rs =
             (Inr (map (\<lambda>p. toDocument (fst p) (snd p)) (validatedOf c ids (Suc k) rs)), c, stN)"
    and adN: "adapter stN = FileAdapter"
    and rdN: "readData c stN =
             json_data (foldl (\<lambda>d p. setprop (fst p) (snd p) d) (readData c st2) (validatedOf c ids (Suc k) rs))"
    and ldN: "loadIndexesFromMeta c stN =
             foldl (\<lambda>I p. indexRecord I (fst p) (snd p)) (loadIndexesFromMeta c st2) (validatedOf c ids (Suc k) rs)"
    and wcN: "writeDataCalls stN = writeDataCalls st2 + length rs"
      "writeMetaCalls stN = writeMetaCalls st2 + length rs"
    by blast
  have "addEach c st ids k (r # rs) =
      (Inr (map (\<lambda>p. toDocument (fst p) (snd p)) (validatedOf c ids k (r # rs))), c, stN)"
    using a e by simp
  moreover have "readData c stN =
      json_data (foldl (\<lambda>d p. setprop (fst p) (snd p) d) (readData c st) (validatedOf c ids k (r # rs)))"
    using rdN rd by (simp add: json_data_store)
  moreover have "loadIndexesFromMeta c stN =
      foldl (\<lambda>I p. indexRecord I (fst p) (snd p)) (loadIndexesFromMeta c st) (validatedOf c ids k (r # rs))"
    using ldN ld by simp
  ultimately show ?case using adN wcN wc by simp
qed

lemma validatedOf_length [simp]: "length (validatedOf c ids k rs) = length rs"
  by (induction rs arbitrary: k) simp_all

lemma addMany_file:
  assumes "fileMode c" "adapter st = FileAdapter" "distinct (map fst (schema c))"
    and "list_all (validRecord c) rs" "list_all (jsonKeepsIndexed c) rs"
  shows "\<exists>st'. addMany c st ids rs =
             (Inr (map (\<lambda>p. toDocument (fst p) (snd p)) (validatedOf c ids 0 rs)), c, st') \<and>
           readData c st' =
             json_data (foldl (\<lambda>d p. setprop (fst p) (snd p) d) (readData c st) (validatedOf c ids 0 rs)) \<and>
           loadIndexesFromMeta c st' =
             foldl (\<lambda>I p. indexRecord I (fst p) (snd p)) (loadIndexesFromMeta c st) (validatedOf c ids 0 rs) \<and>
           writeDataCalls st' = Suc (writeDataCalls st) \<and>
           writeMetaCalls st' = Suc (writeMetaCalls st)"
proof -
  let ?V = "validatedOf c ids 0 rs"
  let ?D = "foldl (\<lambda>d p. setprop (fst p) (snd p) d) (readData c st) ?V"
  let ?I = "foldl (\<lambda>I p. indexRecord I (fst p) (snd p)) (loadIndexesFromMeta c st) ?V"
  let ?st1 = "Storage_writeData st (name c) ?D"
  let ?st' = "Storage_writeMeta ?st1 (name c) (buildMeta c ?I)"
  have a: "addMany c st ids rs = (Inr (map (\<lambda>p. toDocument (fst p) (snd p)) ?V), c, ?st')"
    using assms(1) validateAll_valid[OF assms(4), of ids 0]
    by (simp add: addMany_def Let_def storeAll_fst storeAll_snd writeData_def)
  from store_keeps[OF shaped_load[OF assms(3), of st] keeps_load[OF assms(2), of c] assms(5),
      where ids = ids and k = 0]
  have sh: "shaped (schema c) ?I" and ke: "jsonKeepsEntries ?I" by simp_all
  have ad: "adapter ?st1 = FileAdapter" using assms(2) by simp
  have "loadIndexesFromMeta c ?st' = ?I" by (rule load_written[OF ad assms(3) sh ke])
  moreover have "readData c ?st' = json_data ?D" using assms(2) by (simp add: readData_written)
  ultimately show ?thesis using a by simp
qed


text \<open>
  Claim C8, as the code has it. Take a list of records that all pass the validation
  (with their defaults); in file mode let the collection stand over the file
  adapter, with distinct field names in its schema as the keys of an object are,
  and let JSON keep the values of the indexed fields as they are (no infinite
  number). Then \<^verbatim>\<open>addMany\<close> returns the documents that \<^verbatim>\<open>add\<close>, called on every record
  in order with the same identifiers, returns, and leaves the same data and the
  same indexes. In file mode \<^verbatim>\<open>addMany\<close> calls \<^verbatim>\<open>writeData\<close> once and \<^verbatim>\<open>writeMeta\<close> once,
  where the repeated \<^verbatim>\<open>add\<close> calls each once for every record; in memory mode neither
  touches the storage.
\<close>

theorem addMany_as_repeated_add:
  assumes "list_all (validRecord c) rs"
    and "fileMode c \<longrightarrow>
           adapter st = FileAdapter \<and> distinct (map fst (schema c)) \<and> list_all (jsonKeepsIndexed c) rs"
  shows "fst (addMany c st ids rs) = fst (addEach c st ids 0 rs) \<and>
         \<not> isl (fst (addMany c st ids rs)) \<and>
         currentData (fst (snd (addMany c st ids rs))) (snd (snd (addMany c st ids rs))) =
           currentData (fst (snd (addEach c st ids 0 rs))) (snd (snd (addEach c st ids 0 rs))) \<and>
         activeIndexes (fst (snd (addMany c st ids rs))) (snd (snd (addMany c st ids rs))) =
           activeIndexes (fst (snd (addEach c st ids 0 rs))) (snd (snd (addEach c st ids 0 rs))) \<and>
         (fileMode c \<longrightarrow>
            writeDataCalls (snd (snd (addMany c st ids rs))) = Suc (writeDataCalls st) \<and>
            writeMetaCalls (snd (snd (addMany c st ids rs))) = Suc (writeMetaCalls st) \<and>
            writeDataCalls (snd (snd (addEach c st ids 0 rs))) = writeDataCalls st + length rs \<and>
            writeMetaCalls (snd (snd (addEach c st ids 0 rs))) = writeMetaCalls st + length rs) \<and>
         (\<not> fileMode c \<longrightarrow>
            snd (addMany c st ids rs) = snd (addEach c st ids 0 rs) \<and>
            snd (snd (addMany c st ids rs)) = st)"
proof (cases "fileMode c")
  case False
  have m: "addMany c st ids rs =
    (Inr (map (\<lambda>p. toDocument (fst p) (snd p)) (validatedOf c ids 0 rs)),
     c\<lparr>data := fst (storeAll (data c) (indexes c) (validatedOf c ids 0 rs)),
       indexes := snd (storeAll (data c) (indexes c) (validatedOf c ids 0 rs))\<rparr>,
     st)"
    using False validateAll_valid[OF assms(1), of ids 0] by (simp add: addMany_def Let_def)
  show ?thesis
    using False unfolding m addEach_memory[OF False assms(1)] by simp
next
  case True
  with assms(2) have f: "adapter st = FileAdapter" "distinct (map fst (schema c))"
    "list_all (jsonKeepsIndexed c) rs" by simp_all
  from addMany_file[OF True f(1,2) assms(1) f(3), of ids]
  obtain st' where m: "addMany c st ids rs =
             (Inr (map (\<lambda>p. toDocument (fst p) (snd p)) (validatedOf c ids 0 rs)), c, st')"
    and mr: "readData c st' =
             json_data (foldl (\<lambda>d p. setprop (fst p) (snd p) d) (readData c st) (validatedOf c ids 0 rs))"
    and ml: "loadIndexesFromMeta c st' =
             foldl (\<lambda>I p. indexRecord I (fst p) (snd p)) (loadIndexesFromMeta c st) (validatedOf c ids 0 rs)"
    and mw: "writeDataCalls st' = Suc (writeDataCalls st)" "writeMetaCalls st' = Suc (writeMetaCalls st)"
    by blast
  from addEach_file[OF True f(1,2) assms(1) f(3), of ids 0]
  obtain stN where e: "addEach c st ids 0 rs =
             (Inr (map (\<lambda>p. toDocument (fst p) (snd p)) (validatedOf c ids 0 rs)), c, stN)"
    and er: "readData c stN =
             json_data (foldl (\<lambda>d p. setprop (fst p) (snd p) d) (readData c st) (validatedOf c ids 0 rs))"
    and el: "loadIndexesFromMeta c stN =
             foldl (\<lambda>I p. indexRecord I (fst p) (snd p)) (loadIndexesFromMeta c st) (validatedOf c ids 0 rs)"
    and ew: "writeDataCalls stN = writeDataCalls st + length rs"
      "writeMetaCalls stN = writeMetaCalls st + length rs"
    by blast
  show ?thesis
    using True unfolding m e by (simp add: currentData_def activeIndexes_def mr er ml el mw ew)
qed

theorem addMany_as_repeated_add_witness:
  "list_all (validRecord (fst (two_users FileAdapter))) [josefina, josef] \<and>
   fileMode (fst (two_users FileAdapter)) \<and>
   map eid (entries (the (map_of
      (activeIndexes (fst (snd (addMany (fst (two_users FileAdapter)) (snd (two_users FileAdapter))
                                  (\<lambda>k. natText (k + 3)) [josefina, josef])))
         (snd (snd (addMany (fst (two_users FileAdapter)) (snd (two_users FileAdapter))
                                  (\<lambda>k. natText (k + 3)) [josefina, josef])))) ''age'')))
     = [''3'', ''2'', ''4'', ''1''] \<and>
   map eid (entries (the (map_of
      (activeIndexes (fst (snd (addEach (fst (two_users FileAdapter)) (snd (two_users FileAdapter))
                                  (\<lambda>k. natText (k + 3)) 0 [josefina, josef])))
         (snd (snd (addEach (fst (two_users FileAdapter)) (snd (two_users FileAdapter))
                                  (\<lambda>k. natText (k + 3)) 0 [josefina, josef])))) ''age'')))
     = [''3'', ''2'', ''4'', ''1''] \<and>
   writeDataCalls (snd (two_users FileAdapter)) = 3 \<and>
   writeDataCalls (snd (snd (addMany (fst (two_users FileAdapter)) (snd (two_users FileAdapter))
                                  (\<lambda>k. natText (k + 3)) [josefina, josef]))) = 4 \<and>
   writeDataCalls (snd (snd (addEach (fst (two_users FileAdapter)) (snd (two_users FileAdapter))
                                  (\<lambda>k. natText (k + 3)) 0 [josefina, josef]))) = 5"
proof -
  let ?c = "fst (two_users FileAdapter)" and ?st = "snd (two_users FileAdapter)"
  let ?ids = "\<lambda>k. natText (k + 3)"
  have h1: "list_all (validRecord ?c) [josefina, josef]" by code_simp
  have fm: "fileMode ?c" by code_simp
  have h2: "fileMode ?c \<longrightarrow>
           adapter ?st = FileAdapter \<and> distinct (map fst (schema ?c)) \<and>
           list_all (jsonKeepsIndexed ?c) [josefina, josef]"
    by code_simp
  have w: "writeDataCalls ?st = 3" by code_simp
  have m: "map eid (entries (the (map_of
      (activeIndexes (fst (snd (addMany ?c ?st ?ids [josefina, josef])))
         (snd (snd (addMany ?c ?st ?ids [josefina, josef])))) ''age''))) = [''3'', ''2'', ''4'', ''1'']"
    by code_simp
  note t = addMany_as_repeated_add[OF h1 h2, of ?ids]
  show ?thesis using t h1 fm w m by simp
qed

text \<open>A batch whose second record is rejected: \<^verbatim>\<open>addMany\<close> raises and stores nothing,
  while \<^verbatim>\<open>add\<close> on each record in order has stored the first when it raises on the
  second.\<close>

theorem addMany_invalid_batch_counterexample:
  "isl (fst (addMany (fst (two_users MemoryAdapter)) (snd (two_users MemoryAdapter))
          (\<lambda>k. natText (k + 3)) [josef, misnamed])) \<and>
   count (fst (snd (addMany (fst (two_users MemoryAdapter)) (snd (two_users MemoryAdapter))
          (\<lambda>k. natText (k + 3)) [josef, misnamed])))
         (snd (snd (addMany (fst (two_users MemoryAdapter)) (snd (two_users MemoryAdapter))
          (\<lambda>k. natText (k + 3)) [josef, misnamed]))) = 2 \<and>
   count (fst (snd (addEach (fst (two_users MemoryAdapter)) (snd (two_users MemoryAdapter))
          (\<lambda>k. natText (k + 3)) 0 [josef, misnamed])))
         (snd (snd (addEach (fst (two_users MemoryAdapter)) (snd (two_users MemoryAdapter))
          (\<lambda>k. natText (k + 3)) 0 [josef, misnamed]))) = 3"
  by code_simp


text \<open>
  The same for every batch that holds a record the validation rejects: \<^verbatim>\<open>addMany\<close>
  raises and leaves the collection and the storage as they were, while \<^verbatim>\<open>add\<close> on
  each record in order raises at the first rejected record and leaves what the
  calls for the records before it have stored.
\<close>

lemma addMany_rejects_batch:
  assumes "\<not> list_all (validRecord c) rs"
  shows "isl (fst (addMany c st ids rs)) \<and> snd (addMany c st ids rs) = (c, st)"
  using assms validateAll_error_iff[of c ids 0 rs]
  by (auto simp: addMany_def Let_def validRecord_def list_all_iff split: sum.splits)

lemma add_valid_schema:
  assumes "validRecord c r"
  shows "\<not> isl (fst (add c st i r)) \<and> schema (fst (snd (add c st i r))) = schema c"
  using assms by (simp add: validRecord_def add_def Let_def)

lemma add_invalid:
  assumes "\<not> validRecord c r"
  shows "isl (fst (add c st i r)) \<and> snd (add c st i r) = (c, st)"
  using assms by (auto simp: validRecord_def add_def Let_def split: option.splits)

lemma addEach_stops_at_invalid:
  assumes "list_all (validRecord c) pre" "\<not> validRecord c r"
  shows "isl (fst (addEach c st ids k (pre @ r # post))) \<and>
         snd (addEach c st ids k (pre @ r # post)) = snd (addEach c st ids k pre) \<and>
         \<not> isl (fst (addEach c st ids k pre))"
  using assms
proof (induction pre arbitrary: c st k)
  case Nil
  then show ?case using add_invalid[of c r st "ids k"]
    by (cases "add c st (ids k) r") (auto split: sum.splits)
next
  case (Cons p pre)
  obtain x c' st' where a: "add c st (ids k) p = (x, c', st')" by (cases "add c st (ids k) p")
  from Cons.prems(1) have vp: "validRecord c p" and vs: "list_all (validRecord c) pre" by simp_all
  from add_valid_schema[OF vp, of st "ids k"] a obtain doc where x: "x = Inr doc" and s: "schema c' = schema c"
    by (cases x) auto
  have v': "list_all (validRecord c') pre" "\<not> validRecord c' r"
    using vs Cons.prems(2) same_schema(2)[OF s] by simp_all
  from Cons.IH[OF v', of st' "Suc k"] show ?case
    using a x
    by (cases "addEach c' st' ids (Suc k) (pre @ r # post)"; cases "addEach c' st' ids (Suc k) pre")
       (auto split: sum.splits)
qed


text \<open>
  Why the values of the indexed fields are asked to be values JSON keeps: an
  infinite age is written as \<^verbatim>\<open>null\<close>. \<^verbatim>\<open>addMany\<close> places the later record by comparing
  with the infinity it still holds in process, the repeated \<^verbatim>\<open>add\<close> by comparing with
  the \<^verbatim>\<open>null\<close> it reads back, and the two leave the entries of the age index in
  different orders.
\<close>

lemma addMany_infinite_age_differs:
  "map eid (entries (the (map_of
      (activeIndexes (fst (new_Collection ''users'' users_schema (empty_storage FileAdapter)))
         (snd (snd (addMany (fst (new_Collection ''users'' users_schema (empty_storage FileAdapter)))
                            (snd (new_Collection ''users'' users_schema (empty_storage FileAdapter)))
                            (\<lambda>k. natText (k + 1)) [ageless, josef])))) ''age'')))
     = [''2'', ''1''] \<and>
   map eid (entries (the (map_of
      (activeIndexes (fst (new_Collection ''users'' users_schema (empty_storage FileAdapter)))
         (snd (snd (addEach (fst (new_Collection ''users'' users_schema (empty_storage FileAdapter)))
                            (snd (new_Collection ''users'' users_schema (empty_storage FileAdapter)))
                            (\<lambda>k. natText (k + 1)) 0 [ageless, josef])))) ''age'')))
     = [''1'', ''2'']"
  by code_simp

end
